theory Spec2Isabelle
  imports Main "HOL-Library.AList"
begin

text \<open>
  A model of \<open>salt/utils/odict.py\<close>. The module binds \<open>OrderedDict\<close> in a chain of
  \<open>try\<close> statements; modelled here is the last alternative, the backport class that
  keeps its keys in a circular doubly linked list with a sentinel, together with
  \<open>DefaultOrderedDict\<close> as a subclass of it.
\<close>

section \<open>Python values, exceptions and the built-in dict\<close>

text \<open>
  Keys are arbitrary hashable Python objects. The sentinel link of the backport stores
  Python's \<open>None\<close> in its key slot and \<open>popitem\<close> raises \<open>KeyError\<close> with a string
  argument, so \<open>None\<close> and strings are made explicit among the objects; every other
  object is \<open>Obj x\<close>.
\<close>

datatype 'k pyobj = PyNone | PyStr string | Obj 'k

text \<open>The only exception class the modelled methods raise themselves, with its argument.\<close>

datatype 'k error = KeyError "'k pyobj"

text \<open>
  The built-in \<open>dict\<close>: an association list with pairwise distinct keys, in the order
  in which the keys were added. Assigning to a key that is there replaces the value in
  place, a new key goes to the end.
\<close>

type_synonym ('a, 'b) pydict = "('a \<times> 'b) list"

definition dict_contains :: "('a, 'b) pydict \<Rightarrow> 'a \<Rightarrow> bool" where
  "dict_contains d k = (map_of d k \<noteq> None)"

definition dict_setitem :: "('a, 'b) pydict \<Rightarrow> 'a \<Rightarrow> 'b \<Rightarrow> ('a, 'b) pydict" where
  "dict_setitem d k v = AList.update k v d"

definition dict_getitem :: "('k pyobj, 'b) pydict \<Rightarrow> 'k pyobj \<Rightarrow> 'k error + 'b" where
  "dict_getitem d k = (case map_of d k of None \<Rightarrow> Inl (KeyError k) | Some v \<Rightarrow> Inr v)"

definition dict_delitem ::
  "('k pyobj, 'b) pydict \<Rightarrow> 'k pyobj \<Rightarrow> 'k error + ('k pyobj, 'b) pydict" where
  "dict_delitem d k =
     (if dict_contains d k then Inr (AList.delete k d) else Inl (KeyError k))"

text \<open>\<open>dict.pop(d, k)\<close> without a default.\<close>

definition dict_pop ::
  "('k pyobj, 'b) pydict \<Rightarrow> 'k pyobj \<Rightarrow> 'k error + ('b \<times> ('k pyobj, 'b) pydict)" where
  "dict_pop d k =
     (case map_of d k of None \<Rightarrow> Inl (KeyError k) | Some v \<Rightarrow> Inr (v, AList.delete k d))"

text \<open>
  \<open>dict.__eq__\<close>: the same number of entries, and every key of the left operand is
  bound to an equal value in the right one. The order of the entries plays no role.
\<close>

definition dict_eq :: "('a, 'b) pydict \<Rightarrow> ('a, 'b) pydict \<Rightarrow> bool" where
  "dict_eq d e = (length d = length e \<and> list_all (\<lambda>(k, v). map_of e k = Some v) d)"

section \<open>The store\<close>

text \<open>
  Each link of the backport is a Python list \<open>[PREV, NEXT, KEY]\<close>. Links and
  dictionary objects are mutable and are referred to by address, so they live in a
  store; creating a list or an object takes the next unused address.
\<close>

type_synonym addr = nat

record 'k link =
  PREV :: addr
  NEXT :: addr
  KEY :: "'k pyobj"

text \<open>
  The class of an instance. \<open>DefaultOrderedDict\<close> adds one attribute,
  \<open>default_factory\<close>, which is \<open>None\<close> or a callable without arguments; it is kept
  with the class tag. (\<open>DefaultOrderedDict.__init__\<close> assigns it after the call of the
  inherited \<open>__init__\<close>, and nothing in between reads it.)
\<close>

datatype 'v pyclass = OrderedDict | DefaultOrderedDict "(unit \<Rightarrow> 'v) option"

text \<open>
  An instance is a dict (the inherited entries, \<open>od_dict\<close>) with two private
  attributes: \<open>__root\<close>, the address of the sentinel link, and \<open>__map\<close>, a dict
  from keys to the addresses of their links.
\<close>

record ('k, 'v) odict =
  od_class :: "'v pyclass"
  od_dict :: "('k pyobj, 'v) pydict"
  od_root :: addr
  od_map :: "('k pyobj, addr) pydict"

record ('k, 'v) store =
  cells :: "addr \<Rightarrow> 'k link"
  objs :: "addr \<Rightarrow> ('k, 'v) odict"
  fresh :: addr

definition new_link :: "'k link \<Rightarrow> ('k, 'v) store \<Rightarrow> addr \<times> ('k, 'v) store" where
  "new_link l s = (fresh s, s\<lparr>cells := (cells s)(fresh s := l), fresh := Suc (fresh s)\<rparr>)"

text \<open>\<open>a[0] = p\<close> and \<open>a[1] = n\<close> on the link at address \<open>a\<close>.\<close>

definition set_PREV :: "addr \<Rightarrow> addr \<Rightarrow> ('k, 'v) store \<Rightarrow> ('k, 'v) store" where
  "set_PREV a p s = s\<lparr>cells := (cells s)(a := (cells s a)\<lparr>PREV := p\<rparr>)\<rparr>"

definition set_NEXT :: "addr \<Rightarrow> addr \<Rightarrow> ('k, 'v) store \<Rightarrow> ('k, 'v) store" where
  "set_NEXT a n s = s\<lparr>cells := (cells s)(a := (cells s a)\<lparr>NEXT := n\<rparr>)\<rparr>"

text \<open>Replacing the inherited entries and \<open>__map\<close> of the instance at \<open>self\<close>.\<close>

definition set_dict ::
  "addr \<Rightarrow> ('k pyobj, 'v) pydict \<Rightarrow> ('k, 'v) store \<Rightarrow> ('k, 'v) store" where
  "set_dict self d s = s\<lparr>objs := (objs s)(self := (objs s self)\<lparr>od_dict := d\<rparr>)\<rparr>"

definition set_map ::
  "addr \<Rightarrow> ('k pyobj, addr) pydict \<Rightarrow> ('k, 'v) store \<Rightarrow> ('k, 'v) store" where
  "set_map self m s = s\<lparr>objs := (objs s)(self := (objs s self)\<lparr>od_map := m\<rparr>)\<rparr>"

section \<open>OrderedDict\<close>

text \<open>
  Creating an instance and the part of \<open>__init__\<close> before the call of \<open>__update\<close>:
  the inherited dict is empty, \<open>self.__root\<close> does not exist yet, so the sentinel is
  allocated and made to point to itself, and \<open>__map\<close> is a new empty dict. (The call
  of \<open>salt.utils.versions.warn_until\<close>, which lives in another module, is taken to
  return.)
\<close>

definition OrderedDict_new :: "'v pyclass \<Rightarrow> ('k, 'v) store \<Rightarrow> addr \<times> ('k, 'v) store" where
  "OrderedDict_new cls s =
     (let self = fresh s;
          root = Suc (fresh s)
      in (self,
          s\<lparr>cells := (cells s)(root := \<lparr>PREV = root, NEXT = root, KEY = PyNone\<rparr>),
            objs := (objs s)(self :=
              \<lparr>od_class = cls, od_dict = [], od_root = root, od_map = []\<rparr>),
            fresh := Suc (Suc (fresh s))\<rparr>))"

text \<open>
  \<open>__setitem__\<close>. The chained assignment
  \<open>last[1] = root[0] = self.__map[key] = [last, root, key]\<close> builds the new link first
  and then assigns to the targets from left to right.
\<close>

definition setitem :: "addr \<Rightarrow> 'k pyobj \<Rightarrow> 'v \<Rightarrow> ('k, 'v) store \<Rightarrow> ('k, 'v) store" where
  "setitem self key val s =
     (if \<not> dict_contains (od_dict (objs s self)) key then
        (let root = od_root (objs s self);
             last' = PREV (cells s root);
             (n, s1) = new_link \<lparr>PREV = last', NEXT = root, KEY = key\<rparr> s;
             s2 = set_NEXT last' n s1;
             s3 = set_PREV root n s2;
             s4 = set_map self (dict_setitem (od_map (objs s3 self)) key n) s3
         in set_dict self (dict_setitem (od_dict (objs s4 self)) key val) s4)
      else set_dict self (dict_setitem (od_dict (objs s self)) key val) s)"

text \<open>
  \<open>__delitem__\<close>. An exception leaves the store as it is at that moment: when
  \<open>self.__map.pop(key)\<close> raises, the inherited entry is already gone.
\<close>

definition delitem ::
  "addr \<Rightarrow> 'k pyobj \<Rightarrow> ('k, 'v) store \<Rightarrow> ('k error + unit) \<times> ('k, 'v) store" where
  "delitem self key s =
     (case dict_delitem (od_dict (objs s self)) key of
        Inl e \<Rightarrow> (Inl e, s)
      | Inr d \<Rightarrow>
          (let s1 = set_dict self d s
           in case dict_pop (od_map (objs s1 self)) key of
                Inl e \<Rightarrow> (Inl e, s1)
              | Inr (link, m) \<Rightarrow>
                  (let s2 = set_map self m s1;
                       link_prev = PREV (cells s2 link);
                       link_next = NEXT (cells s2 link);
                       s3 = set_NEXT link_prev link_next s2;
                       s4 = set_PREV link_next link_prev s3
                   in (Inr (), s4))))"

text \<open>
  \<open>__iter__\<close>: the generator run to exhaustion, started at \<open>root[1]\<close>. It need not
  return on a store whose links do not lead back to the sentinel; not returning is
  \<open>None\<close>.
\<close>

partial_function (option) iter_from ::
  "(addr \<Rightarrow> 'k link) \<Rightarrow> addr \<Rightarrow> addr \<Rightarrow> 'k pyobj list option" where
  "iter_from h root cur =
     (if cur = root then Some []
      else Option.bind (iter_from h root (NEXT (h cur))) (\<lambda>ks. Some (KEY (h cur) # ks)))"

declare iter_from.simps [code]

definition od_iter :: "addr \<Rightarrow> ('k, 'v) store \<Rightarrow> 'k pyobj list option" where
  "od_iter self s =
     (let root = od_root (objs s self) in iter_from (cells s) root (NEXT (cells s root)))"

text \<open>\<open>keys\<close> is \<open>list(self)\<close>.\<close>

definition keys :: "addr \<Rightarrow> ('k, 'v) store \<Rightarrow> 'k pyobj list option" where
  "keys self s = od_iter self s"

text \<open>
  A loop \<open>for key in od: body\<close> over an instance, as Python runs it: the generator of
  \<open>__iter__\<close> yields \<open>cur[2]\<close>, the body runs on it (and may change the store, or
  raise, which ends the loop), then the generator resumes and reads \<open>cur[1]\<close> from the
  store as it is by then. \<open>acc\<close> is what the loop builds.
\<close>

partial_function (option) for_keys ::
  "addr \<Rightarrow> ('k pyobj \<Rightarrow> 'a \<Rightarrow> ('k, 'v) store \<Rightarrow> ('k error + 'a) \<times> ('k, 'v) store)
     \<Rightarrow> addr \<Rightarrow> 'a \<Rightarrow> ('k, 'v) store \<Rightarrow> (('k error + 'a) \<times> ('k, 'v) store) option" where
  "for_keys root body cur acc s =
     (if cur = root then Some (Inr acc, s)
      else (case body (KEY (cells s cur)) acc s of
              (Inl e, s') \<Rightarrow> Some (Inl e, s')
            | (Inr acc', s') \<Rightarrow> for_keys root body (NEXT (cells s' cur)) acc' s'))"

declare for_keys.simps [code]

definition for_in ::
  "addr \<Rightarrow> ('k pyobj \<Rightarrow> 'a \<Rightarrow> ('k, 'v) store \<Rightarrow> ('k error + 'a) \<times> ('k, 'v) store)
     \<Rightarrow> 'a \<Rightarrow> ('k, 'v) store \<Rightarrow> (('k error + 'a) \<times> ('k, 'v) store) option" where
  "for_in od body acc s =
     (let root = od_root (objs s od) in for_keys root body (NEXT (cells s root)) acc s)"

section \<open>DefaultOrderedDict.__getitem__ and the subscript\<close>

text \<open>
  \<open>__missing__\<close>. It is only called on instances of \<open>DefaultOrderedDict\<close>; the line
  for \<open>OrderedDict\<close>, which has no such attribute, is never reached.
\<close>

fun default_factory :: "'v pyclass \<Rightarrow> (unit \<Rightarrow> 'v) option" where
  "default_factory (DefaultOrderedDict f) = f"
| "default_factory OrderedDict = None"

definition missing ::
  "addr \<Rightarrow> 'k pyobj \<Rightarrow> ('k, 'v) store \<Rightarrow> ('k error + 'v) \<times> ('k, 'v) store" where
  "missing self key s =
     (case default_factory (od_class (objs s self)) of
        None \<Rightarrow> (Inl (KeyError key), s)
      | Some f \<Rightarrow> (let val = f () in (Inr val, setitem self key val s)))"

text \<open>
  The inherited \<open>dict.__getitem__\<close>: on a key that is not there, the built-in calls
  \<open>__missing__\<close> when the class of the instance defines it, and raises \<open>KeyError\<close>
  otherwise.
\<close>

definition dict_subscript ::
  "addr \<Rightarrow> 'k pyobj \<Rightarrow> ('k, 'v) store \<Rightarrow> ('k error + 'v) \<times> ('k, 'v) store" where
  "dict_subscript self key s =
     (case dict_getitem (od_dict (objs s self)) key of
        Inr v \<Rightarrow> (Inr v, s)
      | Inl e \<Rightarrow>
          (case od_class (objs s self) of
             OrderedDict \<Rightarrow> (Inl e, s)
           | DefaultOrderedDict f \<Rightarrow> missing self key s))"

text \<open>
  \<open>self[key]\<close>, by the class of the instance: \<open>OrderedDict\<close> inherits
  \<open>dict.__getitem__\<close>; \<open>DefaultOrderedDict.__getitem__\<close> calls it and, on
  \<open>KeyError\<close>, calls \<open>__missing__\<close>.
\<close>

definition getitem ::
  "addr \<Rightarrow> 'k pyobj \<Rightarrow> ('k, 'v) store \<Rightarrow> ('k error + 'v) \<times> ('k, 'v) store" where
  "getitem self key s =
     (case od_class (objs s self) of
        OrderedDict \<Rightarrow> dict_subscript self key s
      | DefaultOrderedDict f \<Rightarrow>
          (case dict_subscript self key s of
             (Inr v, s') \<Rightarrow> (Inr v, s')
           | (Inl (KeyError k), s') \<Rightarrow> missing self key s'))"

definition contains :: "addr \<Rightarrow> 'k pyobj \<Rightarrow> ('k, 'v) store \<Rightarrow> bool" where
  "contains self key s = dict_contains (od_dict (objs s self)) key"

section \<open>The remaining methods of OrderedDict\<close>

text \<open>\<open>popitem\<close>. \<open>not self\<close> is true when the inherited dict has no entries.\<close>

definition popitem ::
  "addr \<Rightarrow> bool \<Rightarrow> ('k, 'v) store \<Rightarrow> ('k error + 'k pyobj \<times> 'v) \<times> ('k, 'v) store" where
  "popitem self last' s =
     (if od_dict (objs s self) = [] then (Inl (KeyError (PyStr ''dictionary is empty'')), s)
      else
        (let root = od_root (objs s self);
             (link, s2) =
               (if last' then
                  (let link = PREV (cells s root);
                       link_prev = PREV (cells s link);
                       s1 = set_NEXT link_prev root s
                   in (link, set_PREV root link_prev s1))
                else
                  (let link = NEXT (cells s root);
                       link_next = NEXT (cells s link);
                       s1 = set_NEXT root link_next s
                   in (link, set_PREV link_next root s1)));
             key = KEY (cells s2 link)
         in case dict_delitem (od_map (objs s2 self)) key of
              Inl e \<Rightarrow> (Inl e, s2)
            | Inr m \<Rightarrow>
                (let s3 = set_map self m s2
                 in case dict_pop (od_dict (objs s3 self)) key of
                      Inl e \<Rightarrow> (Inl e, s3)
                    | Inr (val, d) \<Rightarrow> (Inr (key, val), set_dict self d s3))))"

text \<open>\<open>values\<close> (here \<open>od_values\<close>) and \<open>items\<close>: list comprehensions over \<open>self\<close>.\<close>

definition od_values ::
  "addr \<Rightarrow> ('k, 'v) store \<Rightarrow> (('k error + 'v list) \<times> ('k, 'v) store) option" where
  "od_values self s =
     for_in self
       (\<lambda>key acc s. case getitem self key s of
                       (Inl e, s') \<Rightarrow> (Inl e, s')
                     | (Inr v, s') \<Rightarrow> (Inr (acc @ [v]), s'))
       [] s"

definition items ::
  "addr \<Rightarrow> ('k, 'v) store \<Rightarrow> (('k error + ('k pyobj \<times> 'v) list) \<times> ('k, 'v) store) option" where
  "items self s =
     for_in self
       (\<lambda>key acc s. case getitem self key s of
                       (Inl e, s') \<Rightarrow> (Inl e, s')
                     | (Inr v, s') \<Rightarrow> (Inr (acc @ [(key, v)]), s'))
       [] s"

text \<open>
  What \<open>update\<close> and the constructors are given as \<open>other\<close>: nothing (\<open>other\<close> is
  then the empty tuple), a list of key/value pairs, a plain dict, or an instance of
  \<open>OrderedDict\<close> or of its subclass.
\<close>

datatype ('k, 'v) pyarg =
    NoArg
  | Pairs "('k pyobj \<times> 'v) list"
  | PlainDict "('k pyobj, 'v) pydict"
  | Instance addr

text \<open>A run of assignments \<open>self[key] = value\<close>, in the order of the list.\<close>

fun set_all :: "('k pyobj \<times> 'v) list \<Rightarrow> addr \<Rightarrow> ('k, 'v) store \<Rightarrow> ('k, 'v) store" where
  "set_all [] self s = s"
| "set_all ((key, val) # kvs) self s = set_all kvs self (setitem self key val s)"

text \<open>
  \<open>update\<close> with at most one positional argument and no keyword arguments. A plain
  dict and an instance are both dicts, so the first branch runs
  \<open>for key in other: self[key] = other[key]\<close>; iterating a plain dict and looking each
  key up gives its entries in order. Pairs and the empty tuple take the last branch.
\<close>

definition update ::
  "addr \<Rightarrow> ('k, 'v) pyarg \<Rightarrow> ('k, 'v) store \<Rightarrow> (('k error + unit) \<times> ('k, 'v) store) option" where
  "update self other s =
     (case other of
        PlainDict d \<Rightarrow> Some (Inr (), set_all d self s)
      | Instance od \<Rightarrow>
          for_in od
            (\<lambda>key acc s. case getitem od key s of
                            (Inl e, s') \<Rightarrow> (Inl e, s')
                          | (Inr v, s') \<Rightarrow> (Inr (), setitem self key v s'))
            () s
      | Pairs kvs \<Rightarrow> Some (Inr (), set_all kvs self s)
      | NoArg \<Rightarrow> Some (Inr (), s))"

text \<open>
  \<open>OrderedDict(*args)\<close> and \<open>DefaultOrderedDict(default_factory, *a)\<close> with at most
  one initializer: a new instance of the class, then \<open>__update\<close>. The two
  \<open>TypeError\<close>s of the constructors (more than one positional initializer, a factory
  that is not callable) cannot arise on arguments of these types.
\<close>

definition OrderedDict_init ::
  "'v pyclass \<Rightarrow> ('k, 'v) pyarg \<Rightarrow> ('k, 'v) store \<Rightarrow> (('k error + addr) \<times> ('k, 'v) store) option" where
  "OrderedDict_init cls other s =
     (let (self, s1) = OrderedDict_new cls s
      in case update self other s1 of
           None \<Rightarrow> None
         | Some (Inl e, s2) \<Rightarrow> Some (Inl e, s2)
         | Some (Inr u, s2) \<Rightarrow> Some (Inr self, s2))"

text \<open>
  \<open>pop\<close> with an optional default (\<open>None\<close> stands for the marker object).
\<close>

definition pop ::
  "addr \<Rightarrow> 'k pyobj \<Rightarrow> 'v option \<Rightarrow> ('k, 'v) store \<Rightarrow> ('k error + 'v) \<times> ('k, 'v) store" where
  "pop self key default' s =
     (if contains self key s then
        (case getitem self key s of
           (Inl e, s1) \<Rightarrow> (Inl e, s1)
         | (Inr result, s1) \<Rightarrow>
             (case delitem self key s1 of
                (Inl e, s2) \<Rightarrow> (Inl e, s2)
              | (Inr u, s2) \<Rightarrow> (Inr result, s2)))
      else (case default' of
              None \<Rightarrow> (Inl (KeyError key), s)
            | Some d \<Rightarrow> (Inr d, s)))"

text \<open>
  \<open>copy\<close>: \<open>self.__class__(self)\<close> in \<open>OrderedDict\<close>, overridden by
  \<open>type(self)(self.default_factory, self)\<close> in \<open>DefaultOrderedDict\<close>.
\<close>

definition copy ::
  "addr \<Rightarrow> ('k, 'v) store \<Rightarrow> (('k error + addr) \<times> ('k, 'v) store) option" where
  "copy self s =
     (case od_class (objs s self) of
        OrderedDict \<Rightarrow> OrderedDict_init OrderedDict (Instance self) s
      | DefaultOrderedDict f \<Rightarrow> OrderedDict_init (DefaultOrderedDict f) (Instance self) s)"

text \<open>
  \<open>__eq__\<close> against another instance or against a plain dict. \<open>and\<close> does not
  evaluate its second operand when the lengths differ.
\<close>

datatype ('k, 'v) operand = AnInstance addr | APlainDict "('k pyobj, 'v) pydict"

definition eq ::
  "addr \<Rightarrow> ('k, 'v) operand \<Rightarrow> ('k, 'v) store \<Rightarrow> (('k error + bool) \<times> ('k, 'v) store) option" where
  "eq self other s =
     (case other of
        AnInstance od \<Rightarrow>
          (if length (od_dict (objs s self)) = length (od_dict (objs s od)) then
             (case items self s of
                None \<Rightarrow> None
              | Some (Inl e, s1) \<Rightarrow> Some (Inl e, s1)
              | Some (Inr xs, s1) \<Rightarrow>
                  (case items od s1 of
                     None \<Rightarrow> None
                   | Some (Inl e, s2) \<Rightarrow> Some (Inl e, s2)
                   | Some (Inr ys, s2) \<Rightarrow> Some (Inr (xs = ys), s2)))
           else Some (Inr False, s))
      | APlainDict d \<Rightarrow> Some (Inr (dict_eq (od_dict (objs s self)) d), s))"

section \<open>The representation invariant\<close>

text \<open>
  \<open>path f p as q\<close>: following the pointer field \<open>f\<close> from \<open>p\<close> visits the
  addresses \<open>as\<close> in this order and then reaches \<open>q\<close>.
\<close>

primrec path :: "(addr \<Rightarrow> addr) \<Rightarrow> addr \<Rightarrow> addr list \<Rightarrow> addr \<Rightarrow> bool" where
  "path f p [] q = (f p = q)"
| "path f p (a # as) q = (f p = a \<and> path f a as q)"

text \<open>The three fields of the link at an address, as functions of the address.\<close>

definition nexts :: "('k, 'v) store \<Rightarrow> addr \<Rightarrow> addr" where
  "nexts s a = NEXT (cells s a)"

definition prevs :: "('k, 'v) store \<Rightarrow> addr \<Rightarrow> addr" where
  "prevs s a = PREV (cells s a)"

definition key_of :: "('k, 'v) store \<Rightarrow> addr \<Rightarrow> 'k pyobj" where
  "key_of s a = KEY (cells s a)"

text \<open>
  The links at \<open>as\<close> form, with the sentinel \<open>rt\<close>, a circular doubly linked list:
  \<open>NEXT\<close> leads from the sentinel through \<open>as\<close> back to the sentinel, \<open>PREV\<close> leads
  through them in reverse, and no address occurs twice.
\<close>

definition ring :: "('k, 'v) store \<Rightarrow> addr \<Rightarrow> addr list \<Rightarrow> bool" where
  "ring s rt as =
     (path (nexts s) rt as rt \<and> path (prevs s) rt (rev as) rt \<and> distinct (rt # as))"

definition keys_at :: "('k, 'v) store \<Rightarrow> addr list \<Rightarrow> 'k pyobj list" where
  "keys_at s as = map (key_of s) as"

text \<open>
  \<open>od_inv self s as\<close>: the instance at \<open>self\<close> is well formed in the store \<open>s\<close>, and
  \<open>as\<close> are the addresses of its links in list order. The instance and its links are
  allocated, the keys of the links are pairwise distinct and are exactly the keys of the
  inherited dict, and \<open>__map\<close> sends each key to its link.
\<close>

definition od_inv :: "addr \<Rightarrow> ('k, 'v) store \<Rightarrow> addr list \<Rightarrow> bool" where
  "od_inv self s as =
     (self < fresh s
      \<and> ring s (od_root (objs s self)) as
      \<and> (\<forall>a \<in> set (od_root (objs s self) # as). a < fresh s)
      \<and> distinct (keys_at s as)
      \<and> distinct (map fst (od_dict (objs s self)))
      \<and> set (map fst (od_dict (objs s self))) = set (keys_at s as)
      \<and> distinct (map fst (od_map (objs s self)))
      \<and> set (od_map (objs s self)) = set (zip (keys_at s as) as))"

text \<open>The store after \<open>__setitem__\<close> has linked a new key at the tail.\<close>

definition link_tail :: "addr \<Rightarrow> 'k pyobj \<Rightarrow> ('k, 'v) store \<Rightarrow> ('k, 'v) store" where
  "link_tail root key s =
     (let last' = PREV (cells s root);
          (n, s1) = new_link \<lparr>PREV = last', NEXT = root, KEY = key\<rparr> s
      in set_PREV root n (set_NEXT last' n s1))"

text \<open>The loop \<open>for key in od: body\<close> on the keys it visits, as a recursion on their list.\<close>

fun fold_keys ::
  "('k pyobj \<Rightarrow> 'a \<Rightarrow> ('k, 'v) store \<Rightarrow> ('k error + 'a) \<times> ('k, 'v) store)
     \<Rightarrow> 'k pyobj list \<Rightarrow> 'a \<Rightarrow> ('k, 'v) store \<Rightarrow> ('k error + 'a) \<times> ('k, 'v) store" where
  "fold_keys body [] acc s = (Inr acc, s)"
| "fold_keys body (k # ks) acc s =
     (case body k acc s of
        (Inl e, s') \<Rightarrow> (Inl e, s')
      | (Inr acc', s') \<Rightarrow> fold_keys body ks acc' s')"

text \<open>
  The value bound to a key in the inherited dict of an instance, for a key that is
  there.
\<close>

definition entry_of :: "('k, 'v) store \<Rightarrow> addr \<Rightarrow> 'k pyobj \<Rightarrow> 'v" where
  "entry_of s self k = the (map_of (od_dict (objs s self)) k)"

text \<open>
  A store in which nothing has been allocated yet; what its unused addresses hold is
  never read.
\<close>

definition store0 :: "('k, 'v) store" where
  "store0 =
     \<lparr>cells = (\<lambda>a. \<lparr>PREV = 0, NEXT = 0, KEY = PyNone\<rparr>),
      objs = (\<lambda>a. \<lparr>od_class = OrderedDict, od_dict = [], od_root = 0, od_map = []\<rparr>),
      fresh = 0\<rparr>"

text \<open>An instance at address 0 with the keys \<open>a\<close> and \<open>b\<close>, assigned in this order.\<close>

definition ex_ab :: "(nat, nat) store" where
  "ex_ab =
     set_all [(PyStr ''a'', 1), (PyStr ''b'', 2)] 0 (snd (OrderedDict_new OrderedDict store0))"

text \<open>A new instance at address 0, still empty.\<close>

definition ex_empty :: "(nat, nat) store" where
  "ex_empty = snd (OrderedDict_new OrderedDict store0)"

text \<open>An instance at address 0 with the keys \<open>a\<close>, \<open>b\<close> and \<open>c\<close>, assigned in this order.\<close>

definition ex_abc :: "(nat, nat) store" where
  "ex_abc =
     set_all [(PyStr ''a'', 1), (PyStr ''b'', 2), (PyStr ''c'', 3)] 0
       (snd (OrderedDict_new OrderedDict store0))"

text \<open>
  Instances of \<open>DefaultOrderedDict\<close> at address 0 with the key \<open>a\<close>: one whose factory
  returns 0, one without a factory.
\<close>

definition ex_dod :: "(nat, nat) store" where
  "ex_dod =
     set_all [(PyStr ''a'', 1)] 0
       (snd (OrderedDict_new (DefaultOrderedDict (Some (\<lambda>u. 0))) store0))"

definition ex_dod_none :: "(nat, nat) store" where
  "ex_dod_none =
     set_all [(PyStr ''a'', 1)] 0 (snd (OrderedDict_new (DefaultOrderedDict None) store0))"

text \<open>
  Two instances in one store with the same entries in different orders: at address 0
  with \<open>a\<close>, \<open>b\<close>, at address 4 with \<open>b\<close>, \<open>a\<close>.
\<close>

definition ex_two :: "(nat, nat) store" where
  "ex_two =
     set_all [(PyStr ''b'', 2), (PyStr ''a'', 1)] 4 (snd (OrderedDict_new OrderedDict ex_ab))"



text \<open>
  \<open>apart lim self as c t\<close>: in the store \<open>t\<close> the well-formed instance \<open>self\<close> and its
  links \<open>as\<close> lie below the address \<open>lim\<close>, and the well-formed instance \<open>c\<close> and
  its links lie at or above it.
\<close>

definition apart :: "addr \<Rightarrow> addr \<Rightarrow> addr list \<Rightarrow> addr \<Rightarrow> ('k, 'v) store \<Rightarrow> bool" where
  "apart lim self as c t =
     (od_inv self t as \<and> self < lim
      \<and> (\<forall>a \<in> set (od_root (objs t self) # as). a < lim)
      \<and> lim \<le> c \<and> lim \<le> fresh t
      \<and> (\<exists>bs. od_inv c t bs \<and> (\<forall>b \<in> set (od_root (objs t c) # bs). lim \<le> b)))"


section \<open>Properties\<close>

subsection \<open>Paths\<close>

lemma path_cong: "(\<And>x. x \<in> set (p # as) \<Longrightarrow> f x = g x) \<Longrightarrow> path f p as q = path g p as q"
  by (induction as arbitrary: p) auto

lemma path_upd_other:
  "u \<notin> set (p # as) \<Longrightarrow> path (f(u := v)) p as q = path f p as q"
  by (rule path_cong) auto

lemma path_snoc: "path f p (as @ [a]) q = (path f p as a \<and> f a = q)"
  by (induction as arbitrary: p) auto

lemma path_append: "path f p (xs @ a # ys) q = (path f p xs a \<and> path f a ys q)"
  by (induction xs arbitrary: p) auto

lemma path_redirect:
  "path f p as q \<Longrightarrow> distinct (p # as) \<Longrightarrow> path (f(last (p # as) := q')) p as q'"
proof (induction as arbitrary: p)
  case Nil
  then show ?case by simp
next
  case (Cons a as)
  from Cons.prems have "p \<noteq> last (a # as)" by auto
  with Cons show ?case by auto
qed

lemma path_push:
  assumes "path f p as q" "n \<notin> set (p # as)" "p \<notin> set as"
  shows "path (f(n := f p, p := n)) p (n # as) q"
proof (cases as)
  case Nil
  with assms show ?thesis by auto
next
  case (Cons a as')
  have "path (f(n := f p, p := n)) a as' q = path f a as' q"
    using assms Cons by (intro path_cong) auto
  with assms Cons show ?thesis by auto
qed

lemma path_unlink_head:
  assumes "path f p (a # ys) q" "distinct (p # a # ys)"
  shows "path (f(p := f a)) p ys q"
proof -
  define g where "g = f(p := f a)"
  have gp: "g p = f a" by (simp add: g_def)
  have "path g p ys q"
  proof (cases ys)
    case Nil
    with assms gp show ?thesis by simp
  next
    case (Cons y ys')
    have "path g y ys' q = path f y ys' q"
      unfolding g_def using assms Cons by (intro path_upd_other) auto
    with assms Cons gp show ?thesis by simp
  qed
  then show ?thesis by (simp only: g_def)
qed

lemma path_unlink:
  "path f p (xs @ a # ys) q \<Longrightarrow> distinct (p # xs @ a # ys)
     \<Longrightarrow> path (f(last (p # xs) := f a)) p (xs @ ys) q"
proof (induction xs arbitrary: p)
  case Nil
  then have "path f p (a # ys) q" "distinct (p # a # ys)" by simp_all
  from path_unlink_head[OF this] show ?case by (simp add: fun_upd_def)
next
  case (Cons x xs)
  from Cons.prems have "p \<noteq> last (x # xs)" by auto
  with Cons show ?case by auto
qed

subsection \<open>Fields of the store after an assignment\<close>

lemma set_NEXT_fields:
  "nexts (set_NEXT a n s) = (nexts s)(a := n)"
  "prevs (set_NEXT a n s) = prevs s"
  "key_of (set_NEXT a n s) = key_of s"
  "fresh (set_NEXT a n s) = fresh s"
  "objs (set_NEXT a n s) = objs s"
  by (auto simp: nexts_def prevs_def key_of_def set_NEXT_def fun_eq_iff)

lemma set_PREV_fields:
  "nexts (set_PREV a n s) = nexts s"
  "prevs (set_PREV a n s) = (prevs s)(a := n)"
  "key_of (set_PREV a n s) = key_of s"
  "fresh (set_PREV a n s) = fresh s"
  "objs (set_PREV a n s) = objs s"
  by (auto simp: nexts_def prevs_def key_of_def set_PREV_def fun_eq_iff)

lemma new_link_fields:
  "fst (new_link l s) = fresh s"
  "nexts (snd (new_link l s)) = (nexts s)(fresh s := NEXT l)"
  "prevs (snd (new_link l s)) = (prevs s)(fresh s := PREV l)"
  "key_of (snd (new_link l s)) = (key_of s)(fresh s := KEY l)"
  "fresh (snd (new_link l s)) = Suc (fresh s)"
  "objs (snd (new_link l s)) = objs s"
  by (auto simp: nexts_def prevs_def key_of_def new_link_def fun_eq_iff)

lemma set_dict_fields:
  "nexts (set_dict self d s) = nexts s"
  "prevs (set_dict self d s) = prevs s"
  "key_of (set_dict self d s) = key_of s"
  "fresh (set_dict self d s) = fresh s"
  "cells (set_dict self d s) = cells s"
  "objs (set_dict self d s) = (objs s)(self := (objs s self)\<lparr>od_dict := d\<rparr>)"
  by (auto simp: nexts_def prevs_def key_of_def set_dict_def fun_eq_iff)

lemma set_map_fields:
  "nexts (set_map self m s) = nexts s"
  "prevs (set_map self m s) = prevs s"
  "key_of (set_map self m s) = key_of s"
  "fresh (set_map self m s) = fresh s"
  "cells (set_map self m s) = cells s"
  "objs (set_map self m s) = (objs s)(self := (objs s self)\<lparr>od_map := m\<rparr>)"
  by (auto simp: nexts_def prevs_def key_of_def set_map_def fun_eq_iff)

lemma link_tail_fields:
  "nexts (link_tail rt key s) = (nexts s)(fresh s := rt, prevs s rt := fresh s)"
  "prevs (link_tail rt key s) = (prevs s)(fresh s := prevs s rt, rt := fresh s)"
  "key_of (link_tail rt key s) = (key_of s)(fresh s := key)"
  "fresh (link_tail rt key s) = Suc (fresh s)"
  "objs (link_tail rt key s) = objs s"
  by (simp_all add: link_tail_def Let_def split_beta set_NEXT_fields set_PREV_fields
      new_link_fields prevs_def[symmetric])

lemma ring_fields_cong:
  "nexts s' = nexts s \<Longrightarrow> prevs s' = prevs s \<Longrightarrow> ring s' rt as = ring s rt as"
  by (simp add: ring_def)

lemma keys_at_cong: "key_of s' = key_of s \<Longrightarrow> keys_at s' as = keys_at s as"
  by (simp add: keys_at_def)

subsection \<open>The built-in dict\<close>

lemma dict_contains_iff: "dict_contains d k \<longleftrightarrow> k \<in> fst ` set d"
  by (simp add: dict_contains_def map_of_eq_None_iff)

lemma update_absent: "k \<notin> fst ` set d \<Longrightarrow> AList.update k v d = d @ [(k, v)]"
  by (induction d) auto

lemma dict_setitem_absent: "\<not> dict_contains d k \<Longrightarrow> dict_setitem d k v = d @ [(k, v)]"
  by (simp add: dict_setitem_def dict_contains_iff update_absent)

lemma dict_setitem_keys:
  "dict_contains d k \<Longrightarrow> map fst (dict_setitem d k v) = map fst d"
  by (simp add: dict_setitem_def dict_contains_iff update_keys)

lemma map_of_dict_setitem: "map_of (dict_setitem d k v) = (map_of d)(k \<mapsto> v)"
  by (simp add: dict_setitem_def update_conv')

lemma dict_getitem_setitem: "dict_getitem (dict_setitem d k v) k = Inr v"
  by (simp add: dict_getitem_def map_of_dict_setitem)

subsection \<open>setitem\<close>

lemma setitem_new:
  "\<not> dict_contains (od_dict (objs s self)) key \<Longrightarrow>
   setitem self key val s =
     set_dict self (dict_setitem (od_dict (objs s self)) key val)
       (set_map self (dict_setitem (od_map (objs s self)) key (fresh s))
          (link_tail (od_root (objs s self)) key s))"
  by (simp add: setitem_def link_tail_def Let_def split_beta new_link_fields
      set_NEXT_fields set_PREV_fields set_map_fields)

lemma setitem_old:
  "dict_contains (od_dict (objs s self)) key \<Longrightarrow>
   setitem self key val s = set_dict self (dict_setitem (od_dict (objs s self)) key val) s"
  by (simp add: setitem_def)

lemma setitem_new_fields:
  assumes "\<not> dict_contains (od_dict (objs s self)) key"
  shows "nexts (setitem self key val s) =
           (nexts s)(fresh s := od_root (objs s self), prevs s (od_root (objs s self)) := fresh s)"
    and "prevs (setitem self key val s) =
           (prevs s)(fresh s := prevs s (od_root (objs s self)), od_root (objs s self) := fresh s)"
    and "key_of (setitem self key val s) = (key_of s)(fresh s := key)"
    and "fresh (setitem self key val s) = Suc (fresh s)"
    and "objs (setitem self key val s) = (objs s)(self := (objs s self)
           \<lparr>od_map := dict_setitem (od_map (objs s self)) key (fresh s),
             od_dict := dict_setitem (od_dict (objs s self)) key val\<rparr>)"
  by (simp_all add: setitem_new[OF assms] set_dict_fields set_map_fields link_tail_fields)

lemma setitem_old_fields:
  assumes "dict_contains (od_dict (objs s self)) key"
  shows "nexts (setitem self key val s) = nexts s"
    and "prevs (setitem self key val s) = prevs s"
    and "key_of (setitem self key val s) = key_of s"
    and "fresh (setitem self key val s) = fresh s"
    and "objs (setitem self key val s) = (objs s)(self := (objs s self)
           \<lparr>od_dict := dict_setitem (od_dict (objs s self)) key val\<rparr>)"
  by (simp_all add: setitem_old[OF assms] set_dict_fields)

subsection \<open>Iteration and the ring\<close>

lemma iter_from_path:
  "path (nexts s) p as rt \<Longrightarrow> rt \<notin> set as
     \<Longrightarrow> iter_from (cells s) rt (nexts s p) = Some (map (key_of s) as)"
proof (induction as arbitrary: p)
  case Nil
  then show ?case by (simp add: iter_from.simps)
next
  case (Cons a as)
  then have "iter_from (cells s) rt (nexts s a) = Some (map (key_of s) as)" by simp
  with Cons.prems show ?case
    by (subst iter_from.simps) (auto simp: nexts_def key_of_def)
qed

lemma ring_prevs_root: "ring s rt as \<Longrightarrow> prevs s rt = last (rt # as)"
  by (cases as rule: rev_cases) (auto simp: ring_def)

lemma ring_nexts_root: "ring s rt as \<Longrightarrow> nexts s rt = hd (as @ [rt])"
  by (cases as) (auto simp: ring_def)

lemma ring_link_tail:
  assumes "ring s rt as" "\<forall>a \<in> set (rt # as). a < fresh s"
    and nx: "nexts s' = (nexts s)(fresh s := rt, prevs s rt := fresh s)"
    and pv: "prevs s' = (prevs s)(fresh s := prevs s rt, rt := fresh s)"
  shows "ring s' rt (as @ [fresh s])"
proof -
  let ?n = "fresh s"
  have n: "?n \<notin> set (rt # as)" using assms(2) by auto
  have rt: "rt \<notin> set as" and d: "distinct (rt # as)" using assms(1) by (auto simp: ring_def)
  have l: "prevs s rt = last (rt # as)" by (rule ring_prevs_root[OF assms(1)])
  have "path ((nexts s)(?n := rt)) rt as rt"
    using assms(1) n by (simp add: path_upd_other ring_def)
  from path_redirect[OF this d, of ?n]
  have 1: "path (nexts s') rt (as @ [?n]) rt"
    using n l by (auto simp: nx path_snoc)
  have "path (prevs s) rt (rev as) rt" using assms(1) by (simp add: ring_def)
  from path_push[OF this, of ?n]
  have 2: "path (prevs s') rt (rev (as @ [?n])) rt"
    using n rt by (simp add: pv)
  from 1 2 n d show ?thesis by (auto simp: ring_def)
qed

lemma od_inv_keys:
  assumes "od_inv self s as"
  shows "keys self s = Some (keys_at s as)"
proof -
  let ?rt = "od_root (objs s self)"
  from assms have "path (nexts s) ?rt as ?rt" "?rt \<notin> set as"
    by (auto simp: od_inv_def ring_def)
  from iter_from_path[OF this] show ?thesis
    by (simp add: keys_def od_iter_def keys_at_def nexts_def)
qed

lemma od_inv_contains:
  "od_inv self s as \<Longrightarrow> dict_contains (od_dict (objs s self)) k \<longleftrightarrow> k \<in> set (keys_at s as)"
  by (auto simp: od_inv_def dict_contains_iff)

lemma od_inv_map_absent:
  assumes "od_inv self s as" "k \<notin> set (keys_at s as)"
  shows "\<not> dict_contains (od_map (objs s self)) k"
proof
  assume "dict_contains (od_map (objs s self)) k"
  then obtain a where "(k, a) \<in> set (od_map (objs s self))" by (auto simp: dict_contains_iff)
  with assms(1) have "(k, a) \<in> set (zip (keys_at s as) as)" by (simp add: od_inv_def)
  then have "k \<in> set (keys_at s as)" by (rule set_zip_leftD)
  with assms(2) show False by simp
qed

lemma od_inv_setitem_new:
  assumes inv: "od_inv self s as" and new: "\<not> dict_contains (od_dict (objs s self)) key"
  shows "od_inv self (setitem self key val s) (as @ [fresh s])"
    and "keys_at (setitem self key val s) (as @ [fresh s]) = keys_at s as @ [key]"
proof -
  let ?n = "fresh s" and ?s' = "setitem self key val s" and ?rt = "od_root (objs s self)"
  note f = setitem_new_fields[OF new, of val]
  from inv have bound: "\<forall>a \<in> set (?rt # as). a < fresh s" by (simp add: od_inv_def)
  then have n: "?n \<notin> set as" by auto
  from inv have r: "ring s ?rt as" by (simp add: od_inv_def)
  have k: "key \<notin> set (keys_at s as)" using inv new by (simp add: od_inv_contains)
  note nm = od_inv_map_absent[OF inv k]
  show ks: "keys_at ?s' (as @ [?n]) = keys_at s as @ [key]"
    using n by (auto simp: keys_at_def f)
  have rt': "od_root (objs ?s' self) = ?rt" by (simp add: f)
  have 0: "self < fresh ?s'" using inv by (simp add: f od_inv_def)
  have 1: "ring ?s' (od_root (objs ?s' self)) (as @ [?n])"
    unfolding rt' by (rule ring_link_tail[OF r bound f(1) f(2)])
  have 2: "\<forall>a \<in> set (od_root (objs ?s' self) # as @ [?n]). a < fresh ?s'"
    using bound unfolding rt' by (auto simp: f less_Suc_eq)
  have 3: "distinct (keys_at ?s' (as @ [?n]))"
    using inv k unfolding ks by (simp add: od_inv_def)
  have 4: "distinct (map fst (od_dict (objs ?s' self)))"
    "set (map fst (od_dict (objs ?s' self))) = set (keys_at ?s' (as @ [?n]))"
    using inv new k unfolding ks
    by (auto simp: f od_inv_def dict_setitem_absent dict_contains_iff)
  have 5: "distinct (map fst (od_map (objs ?s' self)))"
    using inv nm by (auto simp: f od_inv_def dict_setitem_absent dict_contains_iff)
  have 6: "set (od_map (objs ?s' self)) = set (zip (keys_at ?s' (as @ [?n])) (as @ [?n]))"
    using inv nm unfolding ks by (simp add: f od_inv_def dict_setitem_absent keys_at_def)
  from 0 1 2 3 4 5 6 show "od_inv self ?s' (as @ [fresh s])"
    unfolding od_inv_def by blast
qed

lemma od_inv_setitem_old:
  assumes inv: "od_inv self s as" and old: "dict_contains (od_dict (objs s self)) key"
  shows "od_inv self (setitem self key val s) as"
    and "keys_at (setitem self key val s) as = keys_at s as"
proof -
  note f = setitem_old_fields[OF old, of val]
  have "map fst (od_dict (objs (setitem self key val s) self)) = map fst (od_dict (objs s self))"
    using old by (simp add: f dict_setitem_keys)
  with inv show "od_inv self (setitem self key val s) as"
    unfolding od_inv_def ring_def keys_at_def by (simp add: f)
  show "keys_at (setitem self key val s) as = keys_at s as"
    by (simp add: keys_at_def f)
qed

lemma od_inv_new: "OrderedDict_new cls s = (self, s') \<Longrightarrow> od_inv self s' []"
  by (auto simp: OrderedDict_new_def Let_def od_inv_def ring_def nexts_def prevs_def keys_at_def)

lemma set_all_inv:
  "od_inv self s as \<Longrightarrow> distinct (map fst kvs) \<Longrightarrow> set (map fst kvs) \<inter> set (keys_at s as) = {}
   \<Longrightarrow> \<exists>bs. od_inv self (set_all kvs self s) (as @ bs)
          \<and> keys_at (set_all kvs self s) (as @ bs) = keys_at s as @ map fst kvs"
proof (induction kvs arbitrary: s as)
  case Nil
  then have "od_inv self (set_all [] self s) (as @ []) \<and>
      keys_at (set_all [] self s) (as @ []) = keys_at s as @ map fst []"
    by simp
  then show ?case by blast
next
  case (Cons kv kvs)
  obtain k v where kv: "kv = (k, v)" by (cases kv)
  let ?s1 = "setitem self k v s"
  have new: "\<not> dict_contains (od_dict (objs s self)) k"
    using Cons.prems(1,3) kv by (simp add: od_inv_contains)
  note step = od_inv_setitem_new[OF Cons.prems(1) new, of v]
  have "\<exists>bs. od_inv self (set_all kvs self ?s1) ((as @ [fresh s]) @ bs) \<and>
     keys_at (set_all kvs self ?s1) ((as @ [fresh s]) @ bs)
       = keys_at ?s1 (as @ [fresh s]) @ map fst kvs"
  proof (rule Cons.IH[OF step(1)])
    show "distinct (map fst kvs)" using Cons.prems(2) by simp
    show "set (map fst kvs) \<inter> set (keys_at ?s1 (as @ [fresh s])) = {}"
      using Cons.prems(2,3) kv unfolding step(2) by auto
  qed
  then obtain bs where "od_inv self (set_all (kv # kvs) self s) (as @ fresh s # bs)"
    "keys_at (set_all (kv # kvs) self s) (as @ fresh s # bs) = keys_at s as @ map fst (kv # kvs)"
    unfolding step(2) using kv by auto
  then show ?case by blast
qed

lemma OrderedDict_init_NoArg:
  "OrderedDict_init cls NoArg s =
     Some (Inr (fst (OrderedDict_new cls s)), snd (OrderedDict_new cls s))"
  by (simp add: OrderedDict_init_def update_def split_beta)

lemma contains_setitem_getitem:
  "getitem self k (setitem self k v s) = (Inr v, setitem self k v s)"
proof -
  have "dict_getitem (od_dict (objs (setitem self k v s) self)) k = Inr v"
    by (cases "dict_contains (od_dict (objs s self)) k")
      (simp_all add: setitem_old_fields setitem_new_fields dict_getitem_setitem)
  then show ?thesis
    by (simp add: getitem_def dict_subscript_def split: pyclass.split)
qed

subsection \<open>The example store\<close>

lemmas run_defs =
  store0_def OrderedDict_new_def setitem_def dict_contains_def dict_setitem_def
  new_link_def set_NEXT_def set_PREV_def set_map_def set_dict_def Let_def

lemmas inv_defs =
  od_inv_def ring_def nexts_def prevs_def keys_at_def key_of_def eval_nat_numeral

lemma ex_ab_inv: "od_inv 0 ex_ab [2, 3]"
  by (simp add: ex_ab_def run_defs inv_defs)

lemma ex_ab_keys: "keys_at ex_ab [2, 3] = [PyStr ''a'', PyStr ''b'']"
  by (simp add: ex_ab_def run_defs inv_defs)

lemma ex_ab_dict: "od_dict (objs ex_ab 0) = [(PyStr ''a'', 1), (PyStr ''b'', 2)]"
  by (simp add: ex_ab_def run_defs)

subsection \<open>Insertion order\<close>

text \<open>
  C1. On a new, empty instance, a run of assignments with pairwise distinct keys
  \<open>k1, ..., kn\<close> and no deletion in between makes \<open>keys()\<close> return exactly
  \<open>[k1, ..., kn]\<close>.
\<close>

theorem C1_order_preservation:
  assumes "distinct (map fst kvs)"
    and "OrderedDict_init cls NoArg s = Some (Inr self, s0)"
  shows "keys self (set_all kvs self s0) = Some (map fst kvs)"
proof -
  from assms(2) have "OrderedDict_new cls s = (self, s0)"
    by (simp add: OrderedDict_init_NoArg prod_eq_iff)
  from od_inv_new[OF this] have inv0: "od_inv self s0 []" .
  from set_all_inv[OF inv0 assms(1)]
  obtain bs where bs: "od_inv self (set_all kvs self s0) bs"
    "keys_at (set_all kvs self s0) bs = map fst kvs"
    by (auto simp: keys_at_def)
  from od_inv_keys[OF bs(1)] bs(2) show ?thesis by simp
qed

theorem C1_order_preservation_witness:
  "distinct (map fst [(PyStr ''a'', 1::nat), (PyStr ''b'', 2)])
   \<and> OrderedDict_init OrderedDict NoArg (store0 :: (nat, nat) store)
       = Some (Inr 0, snd (OrderedDict_new OrderedDict store0))
   \<and> keys 0 (set_all [(PyStr ''a'', 1), (PyStr ''b'', 2)] 0
         (snd (OrderedDict_new OrderedDict (store0 :: (nat, nat) store))))
       = Some [PyStr ''a'', PyStr ''b'']"
proof -
  have d: "distinct (map fst [(PyStr ''a'', 1::nat), (PyStr ''b'', 2)])" by simp
  have i: "OrderedDict_init OrderedDict NoArg (store0 :: (nat, nat) store)
       = Some (Inr 0, snd (OrderedDict_new OrderedDict store0))"
    by (simp add: OrderedDict_init_NoArg OrderedDict_new_def store0_def Let_def)
  from C1_order_preservation[OF d i] d i show ?thesis by simp
qed

text \<open>
  C2. Assigning to a key that is already there overwrites its value, so that a
  following \<open>self[k]\<close> returns the new value, and leaves the key where it is: \<open>keys()\<close>
  returns the same list before and after.
\<close>

theorem C2_overwrite_in_place:
  assumes "od_inv self s as" and "contains self k s"
  shows "getitem self k (setitem self k v2 s) = (Inr v2, setitem self k v2 s)
         \<and> keys self s = Some (keys_at s as)
         \<and> keys self (setitem self k v2 s) = keys self s
         \<and> od_inv self (setitem self k v2 s) as"
proof -
  from assms(2) have old: "dict_contains (od_dict (objs s self)) k"
    by (simp add: contains_def)
  note step = od_inv_setitem_old[OF assms(1) old, of v2]
  from od_inv_keys[OF assms(1)] od_inv_keys[OF step(1)] step contains_setitem_getitem[of self k v2 s]
  show ?thesis by simp
qed

theorem C2_overwrite_in_place_witness:
  "od_inv 0 ex_ab [2, 3] \<and> contains 0 (PyStr ''a'') ex_ab
   \<and> getitem 0 (PyStr ''a'') (setitem 0 (PyStr ''a'') 7 ex_ab)
       = (Inr 7, setitem 0 (PyStr ''a'') 7 ex_ab)
   \<and> keys 0 ex_ab = Some [PyStr ''a'', PyStr ''b'']
   \<and> keys 0 (setitem 0 (PyStr ''a'') 7 ex_ab) = Some [PyStr ''a'', PyStr ''b'']"
proof -
  have c: "contains 0 (PyStr ''a'') ex_ab"
    by (simp add: contains_def ex_ab_dict dict_contains_def)
  from C2_overwrite_in_place[OF ex_ab_inv c, of 7] ex_ab_inv c ex_ab_keys
  show ?thesis by simp
qed

subsection \<open>Loops over an instance\<close>

lemma path_last: "path f p as q \<Longrightarrow> f (last (p # as)) = q"
  by (induction as arbitrary: p) auto

lemma for_keys_stop: "for_keys rt body rt acc s = Some (Inr acc, s)"
  by (subst for_keys.simps) simp

lemma for_keys_step:
  "cur \<noteq> rt \<Longrightarrow>
   for_keys rt body cur acc s =
     (case body (key_of s cur) acc s of
        (Inl e, s') \<Rightarrow> Some (Inl e, s')
      | (Inr acc', s') \<Rightarrow> for_keys rt body (nexts s' cur) acc' s')"
  by (subst for_keys.simps) (simp add: key_of_def nexts_def split: prod.split sum.split)

lemma for_keys_fold:
  assumes inv: "\<And>s. I s \<Longrightarrow> path (nexts s) rt as rt \<and> rt \<notin> set as \<and> keys_at s as = ks"
    and step: "\<And>k acc s acc' s'. I s \<Longrightarrow> k \<in> set ks \<Longrightarrow> body k acc s = (Inr acc', s') \<Longrightarrow> I s'"
  shows "I s \<Longrightarrow> as = xs @ ys \<Longrightarrow> p = last (rt # xs) \<Longrightarrow>
     for_keys rt body (nexts s p) acc s
       = Some (fold_keys body (drop (length xs) ks) acc s)"
proof (induction ys arbitrary: xs acc s p)
  case Nil
  from inv[OF Nil.prems(1)] Nil.prems(2)
  have pth: "path (nexts s) rt xs rt" and len: "length ks = length xs"
    by (auto simp: keys_at_def)
  from path_last[OF pth] Nil.prems(3) have "nexts s p = rt" by simp
  moreover from len have "drop (length xs) ks = []" by simp
  ultimately show ?case by (simp only: for_keys_stop fold_keys.simps)
next
  case (Cons a ys)
  from inv[OF Cons.prems(1)] Cons.prems(2)
  have pth: "path (nexts s) rt (xs @ a # ys) rt" and rt: "a \<noteq> rt"
    and ks: "ks = keys_at s (xs @ a # ys)"
    by auto
  from pth have "path (nexts s) rt xs a" by (simp add: path_append)
  from path_last[OF this] Cons.prems(3) have cur: "nexts s p = a" by simp
  have dr: "drop (length xs) ks = key_of s a # drop (Suc (length xs)) ks"
    unfolding ks keys_at_def by (simp add: drop_map)
  have kin: "key_of s a \<in> set ks" unfolding ks keys_at_def by simp
  have unf: "for_keys rt body (nexts s p) acc s =
     (case body (key_of s a) acc s of
        (Inl e, s') \<Rightarrow> Some (Inl e, s')
      | (Inr acc', s') \<Rightarrow> for_keys rt body (nexts s' a) acc' s')"
    unfolding cur by (rule for_keys_step[OF rt])
  have fld: "fold_keys body (drop (length xs) ks) acc s =
     (case body (key_of s a) acc s of
        (Inl e, s') \<Rightarrow> (Inl e, s')
      | (Inr acc', s') \<Rightarrow> fold_keys body (drop (Suc (length xs)) ks) acc' s')"
    unfolding dr by simp
  show ?case
  proof (cases "body (key_of s a) acc s")
    case (Pair r s')
    show ?thesis
    proof (cases r)
      case (Inl e)
      with Pair have b: "body (key_of s a) acc s = (Inl e, s')" by simp
      show ?thesis by (subst unf, subst fld) (simp only: b prod.case sum.case)
    next
      case (Inr acc')
      with Pair have b: "body (key_of s a) acc s = (Inr acc', s')" by simp
      from step[OF Cons.prems(1) kin b] have I': "I s'" .
      from Cons.prems(2) have split: "as = (xs @ [a]) @ ys" by simp
      have "a = last (rt # xs @ [a])" by simp
      from Cons.IH[OF I' split this, of acc']
      have "for_keys rt body (nexts s' a) acc' s'
          = Some (fold_keys body (drop (Suc (length xs)) ks) acc' s')" by simp
      then show ?thesis by (subst unf, subst fld) (simp only: b prod.case sum.case)
    qed
  qed
qed

lemma for_in_fold:
  assumes inv: "\<And>s. I s \<Longrightarrow> ring s (od_root (objs s0 od)) as \<and> keys_at s as = ks"
    and step: "\<And>k acc s acc' s'. I s \<Longrightarrow> k \<in> set ks \<Longrightarrow> body k acc s = (Inr acc', s') \<Longrightarrow> I s'"
    and "I s0"
  shows "for_in od body acc s0 = Some (fold_keys body ks acc s0)"
proof -
  let ?rt = "od_root (objs s0 od)"
  have inv': "\<And>s. I s \<Longrightarrow> path (nexts s) ?rt as ?rt \<and> ?rt \<notin> set as \<and> keys_at s as = ks"
    using inv by (auto simp: ring_def)
  from for_keys_fold[of I ?rt as ks body s0 "[]" as ?rt acc, OF inv' step assms(3)]
  show ?thesis by (simp add: for_in_def nexts_def)
qed

lemma getitem_present:
  assumes "map_of (od_dict (objs s self)) k = Some v"
  shows "getitem self k s = (Inr v, s)"
  using assms by (simp add: getitem_def dict_subscript_def dict_getitem_def split: pyclass.split)

lemma od_inv_lookup:
  assumes "od_inv self s as" "k \<in> set (keys_at s as)"
  shows "\<exists>v. map_of (od_dict (objs s self)) k = Some v"
proof -
  from assms have "k \<in> fst ` set (od_dict (objs s self))" by (simp add: od_inv_def)
  then show ?thesis by (cases "map_of (od_dict (objs s self)) k") (auto simp: map_of_eq_None_iff)
qed

lemma getitem_entry:
  assumes "od_inv self s as" "k \<in> set (keys_at s as)"
  shows "getitem self k s = (Inr (entry_of s self k), s)"
proof -
  from od_inv_lookup[OF assms] obtain v where "map_of (od_dict (objs s self)) k = Some v" ..
  then show ?thesis by (simp add: getitem_present entry_of_def)
qed

lemma fold_keys_collect:
  assumes "\<And>k. k \<in> set ks \<Longrightarrow> getitem self k s = (Inr (g k), s)"
  shows "fold_keys (\<lambda>key acc s. case getitem self key s of
                       (Inl e, s') \<Rightarrow> (Inl e, s')
                     | (Inr v, s') \<Rightarrow> (Inr (acc @ [f key v]), s')) ks acc s
         = (Inr (acc @ map (\<lambda>k. f k (g k)) ks), s)"
  using assms by (induction ks arbitrary: acc) simp_all

lemma for_in_collect:
  assumes inv: "od_inv self s as"
  shows "for_in self (\<lambda>key acc s. case getitem self key s of
                       (Inl e, s') \<Rightarrow> (Inl e, s')
                     | (Inr v, s') \<Rightarrow> (Inr (acc @ [f key v]), s')) [] s
         = Some (Inr (map (\<lambda>k. f k (entry_of s self k)) (keys_at s as)), s)"
    (is "for_in self ?body [] s = _")
proof -
  have "for_in self ?body [] s = Some (fold_keys ?body (keys_at s as) [] s)"
  proof (rule for_in_fold[where I = "\<lambda>t. t = s" and as = as])
    fix t assume "t = s"
    with inv show "ring t (od_root (objs s self)) as \<and> keys_at t as = keys_at s as"
      by (simp add: od_inv_def)
  next
    fix k acc t acc' t'
    assume "t = s" "k \<in> set (keys_at s as)" "?body k acc t = (Inr acc', t')"
    with getitem_entry[OF inv, of k] show "t' = s" by simp
  qed simp
  also have "fold_keys ?body (keys_at s as) [] s
      = (Inr ([] @ map (\<lambda>k. f k (entry_of s self k)) (keys_at s as)), s)"
    by (rule fold_keys_collect) (rule getitem_entry[OF inv])
  finally show ?thesis by simp
qed

lemma od_inv_items:
  "od_inv self s as \<Longrightarrow>
   items self s = Some (Inr (map (\<lambda>k. (k, entry_of s self k)) (keys_at s as)), s)"
  unfolding items_def by (rule for_in_collect[where f = "\<lambda>k v. (k, v)"])

lemma od_inv_values:
  "od_inv self s as \<Longrightarrow>
   od_values self s = Some (Inr (map (entry_of s self) (keys_at s as)), s)"
  unfolding od_values_def using for_in_collect[where f = "\<lambda>k v. v"] by fastforce

subsection \<open>The three views\<close>

text \<open>
  C10. On a well-formed instance \<open>keys()\<close>, \<open>values()\<close> and \<open>items()\<close> all return,
  leave the store as it is, and agree: with \<open>ks\<close> the keys in list order and \<open>vs\<close>
  their values, \<open>items()\<close> is \<open>zip ks vs\<close>, the three lists have the same length, and
  \<open>items()[i] = (keys()[i], values()[i])\<close> at every index.
\<close>

theorem C10_views_agree:
  assumes "od_inv self s as"
  shows "keys self s = Some (keys_at s as)
         \<and> od_values self s = Some (Inr (map (entry_of s self) (keys_at s as)), s)
         \<and> items self s
             = Some (Inr (zip (keys_at s as) (map (entry_of s self) (keys_at s as))), s)
         \<and> length (map (entry_of s self) (keys_at s as)) = length (keys_at s as)
         \<and> (\<forall>i < length (keys_at s as).
               zip (keys_at s as) (map (entry_of s self) (keys_at s as)) ! i
                 = (keys_at s as ! i, map (entry_of s self) (keys_at s as) ! i))"
proof -
  let ?ks = "keys_at s as" and ?vs = "map (entry_of s self) (keys_at s as)"
  have "zip ?ks ?vs = map (\<lambda>k. (k, entry_of s self k)) ?ks"
    by (simp add: zip_map2 zip_same_conv_map)
  with od_inv_keys[OF assms] od_inv_values[OF assms] od_inv_items[OF assms]
  show ?thesis by simp
qed

theorem C10_views_agree_witness:
  "od_inv 0 ex_ab [2, 3]
   \<and> keys 0 ex_ab = Some [PyStr ''a'', PyStr ''b'']
   \<and> od_values 0 ex_ab = Some (Inr [1, 2], ex_ab)
   \<and> items 0 ex_ab = Some (Inr [(PyStr ''a'', 1), (PyStr ''b'', 2)], ex_ab)"
proof -
  have e: "entry_of ex_ab 0 (PyStr ''a'') = 1" "entry_of ex_ab 0 (PyStr ''b'') = 2"
    by (simp_all add: entry_of_def ex_ab_dict)
  from C10_views_agree[OF ex_ab_inv] ex_ab_inv e show ?thesis
    by (simp add: ex_ab_keys)
qed

subsection \<open>Unlinking\<close>

lemma path_first: "path f p as q \<Longrightarrow> f p = hd (as @ [q])"
  by (cases as) auto

lemma ring_unlink:
  assumes r: "ring s rt (xs @ a # ys)"
    and nx: "nexts s' = (nexts s)(prevs s a := nexts s a)"
    and pv: "prevs s' = (prevs s)(nexts s a := prevs s a)"
  shows "ring s' rt (xs @ ys)"
proof -
  from r have pn: "path (nexts s) rt (xs @ a # ys) rt"
    and pp: "path (prevs s) rt (rev ys @ a # rev xs) rt"
    and d: "distinct (rt # xs @ a # ys)"
    by (simp_all add: ring_def)
  from pn have "path (nexts s) a ys rt" by (simp add: path_append)
  from path_first[OF this] have na: "nexts s a = hd (ys @ [rt])" .
  from pp have "path (prevs s) a (rev xs) rt" by (simp add: path_append)
  from path_first[OF this] have pa: "prevs s a = last (rt # xs)"
    by (cases xs rule: rev_cases) simp_all
  have na': "nexts s a = last (rt # rev ys)"
    unfolding na by (cases ys) simp_all
  from d have d': "distinct (rt # rev ys @ a # rev xs)" by auto
  from path_unlink[OF pn d] have 1: "path (nexts s') rt (xs @ ys) rt"
    by (simp only: nx pa)
  from path_unlink[OF pp d'] have 2: "path (prevs s') rt (rev (xs @ ys)) rt"
    by (simp only: pv na' rev_append)
  from 1 2 d show ?thesis by (auto simp: ring_def)
qed

lemma ring_neighbours:
  assumes r: "ring s rt (xs @ a # ys)"
  shows "prevs s a = last (rt # xs)" and "nexts s a = hd (ys @ [rt])"
proof -
  from r have pn: "path (nexts s) rt (xs @ a # ys) rt"
    and pp: "path (prevs s) rt (rev ys @ a # rev xs) rt"
    by (simp_all add: ring_def)
  from pn have "path (nexts s) a ys rt" by (simp add: path_append)
  from path_first[OF this] show "nexts s a = hd (ys @ [rt])" .
  from pp have "path (prevs s) a (rev xs) rt" by (simp add: path_append)
  from path_first[OF this] show "prevs s a = last (rt # xs)"
    by (cases xs rule: rev_cases) simp_all
qed

subsection \<open>Deleting from the built-in dict\<close>

lemma set_delete: "set (AList.delete k d) = {p \<in> set d. fst p \<noteq> k}"
  by (induction d) auto

lemma dict_delitem_present:
  "dict_contains d k \<Longrightarrow> dict_delitem d k = Inr (AList.delete k d)"
  by (simp add: dict_delitem_def)

lemma dict_pop_present:
  "map_of d k = Some v \<Longrightarrow> dict_pop d k = Inr (v, AList.delete k d)"
  by (simp add: dict_pop_def)

lemma od_inv_map_lookup:
  assumes inv: "od_inv self s (xs @ a # ys)"
  shows "map_of (od_map (objs s self)) (key_of s a) = Some a"
proof -
  have "(key_of s a, a) \<in> set (zip (keys_at s (xs @ a # ys)) (xs @ a # ys))"
    by (simp add: keys_at_def zip_append)
  with inv have "(key_of s a, a) \<in> set (od_map (objs s self))" by (simp add: od_inv_def)
  moreover from inv have "distinct (map fst (od_map (objs s self)))" by (simp add: od_inv_def)
  ultimately show ?thesis by simp
qed

lemma od_inv_unlink:
  assumes inv: "od_inv self s (xs @ a # ys)"
    and nx: "nexts s' = (nexts s)(prevs s a := nexts s a)"
    and pv: "prevs s' = (prevs s)(nexts s a := prevs s a)"
    and ky: "key_of s' = key_of s"
    and fr: "fresh s' = fresh s"
    and ob: "objs s' = (objs s)(self := (objs s self)
               \<lparr>od_dict := AList.delete (key_of s a) (od_dict (objs s self)),
                 od_map := AList.delete (key_of s a) (od_map (objs s self))\<rparr>)"
  shows "od_inv self s' (xs @ ys)"
    and "keys_at s' (xs @ ys) = keys_at s xs @ keys_at s ys"
    and "key_of s a \<notin> set (keys_at s xs @ keys_at s ys)"
proof -
  let ?k = "key_of s a" and ?rt = "od_root (objs s self)"
  from inv have r: "ring s ?rt (xs @ a # ys)" by (simp add: od_inv_def)
  from inv have dk: "distinct (keys_at s (xs @ a # ys))" by (simp add: od_inv_def)
  show ks: "keys_at s' (xs @ ys) = keys_at s xs @ keys_at s ys"
    by (simp add: keys_at_def ky)
  show k: "?k \<notin> set (keys_at s xs @ keys_at s ys)"
    using dk by (auto simp: keys_at_def)
  have rt': "od_root (objs s' self) = ?rt" by (simp add: ob)
  have 0: "self < fresh s'" using inv by (simp add: fr od_inv_def)
  have 1: "ring s' (od_root (objs s' self)) (xs @ ys)"
    unfolding rt' by (rule ring_unlink[OF r nx pv])
  have 2: "\<forall>b \<in> set (od_root (objs s' self) # xs @ ys). b < fresh s'"
    using inv unfolding rt' by (auto simp: fr od_inv_def)
  have 3: "distinct (keys_at s' (xs @ ys))"
    using dk unfolding ks by (auto simp: keys_at_def)
  have 4: "distinct (map fst (od_dict (objs s' self)))"
    using inv by (simp add: ob od_inv_def distinct_delete)
  have "set (map fst (od_dict (objs s' self))) = set (keys_at s (xs @ a # ys)) - {?k}"
    using inv by (auto simp: ob od_inv_def delete_keys)
  with k have 5: "set (map fst (od_dict (objs s' self))) = set (keys_at s' (xs @ ys))"
    unfolding ks by (auto simp: keys_at_def)
  have 6: "distinct (map fst (od_map (objs s' self)))"
    using inv by (simp add: ob od_inv_def distinct_delete)
  have "set (od_map (objs s' self))
      = {p \<in> set (zip (keys_at s (xs @ a # ys)) (xs @ a # ys)). fst p \<noteq> ?k}"
    using inv by (simp add: ob od_inv_def set_delete)
  also have "\<dots> = set (zip (keys_at s xs) xs) \<union> set (zip (keys_at s ys) ys)"
    using k by (auto simp: keys_at_def zip_append dest: set_zip_leftD)
  also have "\<dots> = set (zip (keys_at s' (xs @ ys)) (xs @ ys))"
    unfolding ks by (simp add: keys_at_def zip_append)
  finally have 7: "set (od_map (objs s' self)) = set (zip (keys_at s' (xs @ ys)) (xs @ ys))" .
  from 0 1 2 3 4 5 6 7 show "od_inv self s' (xs @ ys)"
    unfolding od_inv_def by blast
qed

subsection \<open>delitem, popitem and pop\<close>

lemma cells_fields:
  "PREV (cells s a) = prevs s a" "NEXT (cells s a) = nexts s a" "KEY (cells s a) = key_of s a"
  by (simp_all add: prevs_def nexts_def key_of_def)

lemma set_cells_eq:
  "cells s' = cells s \<Longrightarrow> nexts s' = nexts s"
  "cells s' = cells s \<Longrightarrow> prevs s' = prevs s"
  "cells s' = cells s \<Longrightarrow> key_of s' = key_of s"
  by (simp_all add: prevs_def nexts_def key_of_def fun_eq_iff)

lemma od_inv_entry:
  assumes "od_inv self s as" "k \<in> set (keys_at s as)"
  shows "map_of (od_dict (objs s self)) k = Some (entry_of s self k)"
  using od_inv_lookup[OF assms] by (auto simp: entry_of_def)

lemma odict_upd_swap:
  "(r :: ('k, 'v) odict)\<lparr>od_map := m, od_dict := d\<rparr> = r\<lparr>od_dict := d, od_map := m\<rparr>"
  by (cases r) simp

lemma delitem_present:
  assumes inv: "od_inv self s (xs @ a # ys)"
  defines "r \<equiv> delitem self (key_of s a) s"
  shows "fst r = Inr ()"
    and "nexts (snd r) = (nexts s)(prevs s a := nexts s a)"
    and "prevs (snd r) = (prevs s)(nexts s a := prevs s a)"
    and "key_of (snd r) = key_of s"
    and "fresh (snd r) = fresh s"
    and "objs (snd r) = (objs s)(self := (objs s self)
               \<lparr>od_dict := AList.delete (key_of s a) (od_dict (objs s self)),
                 od_map := AList.delete (key_of s a) (od_map (objs s self))\<rparr>)"
proof -
  let ?k = "key_of s a"
  have kin: "?k \<in> set (keys_at s (xs @ a # ys))" by (simp add: keys_at_def)
  from inv kin have c: "dict_contains (od_dict (objs s self)) ?k"
    by (simp add: od_inv_contains)
  note m = od_inv_map_lookup[OF inv]
  have eq: "r = (Inr (), set_PREV (nexts s a) (prevs s a) (set_NEXT (prevs s a) (nexts s a)
      (set_map self (AList.delete ?k (od_map (objs s self)))
        (set_dict self (AList.delete ?k (od_dict (objs s self))) s))))"
    unfolding r_def delitem_def
    apply (simp add: dict_delitem_present[OF c] Let_def)
    apply (simp add: set_dict_fields dict_pop_present[OF m] Let_def)
    apply (simp add: set_map_fields set_dict_fields cells_fields)
    done
  show "fst r = Inr ()" by (simp add: eq)
  show "nexts (snd r) = (nexts s)(prevs s a := nexts s a)"
    by (simp add: eq set_PREV_fields set_NEXT_fields set_map_fields set_dict_fields)
  show "prevs (snd r) = (prevs s)(nexts s a := prevs s a)"
    by (simp add: eq set_PREV_fields set_NEXT_fields set_map_fields set_dict_fields)
  show "key_of (snd r) = key_of s"
    by (simp add: eq set_PREV_fields set_NEXT_fields set_map_fields set_dict_fields)
  show "fresh (snd r) = fresh s"
    by (simp add: eq set_PREV_fields set_NEXT_fields set_map_fields set_dict_fields)
  show "objs (snd r) = (objs s)(self := (objs s self)
               \<lparr>od_dict := AList.delete (key_of s a) (od_dict (objs s self)),
                 od_map := AList.delete (key_of s a) (od_map (objs s self))\<rparr>)"
    by (simp add: eq set_PREV_fields set_NEXT_fields set_map_fields set_dict_fields)
qed

lemma popitem_nonempty:
  assumes inv: "od_inv self s (xs @ a # ys)"
    and which: "if last' then ys = [] else xs = []"
  defines "r \<equiv> popitem self last' s"
  shows "fst r = Inr (key_of s a, entry_of s self (key_of s a))"
    and "nexts (snd r) = (nexts s)(prevs s a := nexts s a)"
    and "prevs (snd r) = (prevs s)(nexts s a := prevs s a)"
    and "key_of (snd r) = key_of s"
    and "fresh (snd r) = fresh s"
    and "objs (snd r) = (objs s)(self := (objs s self)
               \<lparr>od_dict := AList.delete (key_of s a) (od_dict (objs s self)),
                 od_map := AList.delete (key_of s a) (od_map (objs s self))\<rparr>)"
proof -
  let ?k = "key_of s a" and ?rt = "od_root (objs s self)"
  have kin: "?k \<in> set (keys_at s (xs @ a # ys))" by (simp add: keys_at_def)
  from inv have ring: "ring s ?rt (xs @ a # ys)" by (simp add: od_inv_def)
  from inv kin have "dict_contains (od_dict (objs s self)) ?k" by (simp add: od_inv_contains)
  then have ne: "od_dict (objs s self) \<noteq> []" by (auto simp: dict_contains_def)
  note m = od_inv_map_lookup[OF inv]
  then have mc: "dict_contains (od_map (objs s self)) ?k" by (simp add: dict_contains_def)
  note e = od_inv_entry[OF inv kin]
  note nb = ring_neighbours[OF ring]
  have eq: "r = (Inr (?k, entry_of s self ?k),
      set_dict self (AList.delete ?k (od_dict (objs s self)))
        (set_map self (AList.delete ?k (od_map (objs s self)))
          (set_PREV (nexts s a) (prevs s a) (set_NEXT (prevs s a) (nexts s a) s))))"
  proof (cases last')
    case True
    with which have ys: "ys = []" by simp
    from ring_prevs_root[OF ring] ys have l: "prevs s ?rt = a" by simp
    from nb ys have n: "nexts s a = ?rt" by simp
    show ?thesis
      unfolding r_def popitem_def
      apply (simp add: ne True Let_def)
      apply (simp only: cells_fields l set_PREV_fields set_NEXT_fields)
      apply (simp only: dict_delitem_present[OF mc] sum.case Let_def)
      apply (simp only: set_map_fields set_PREV_fields set_NEXT_fields fun_upd_same odict.simps)
      apply (simp add: dict_pop_present[OF e] n)
      done
  next
    case False
    with which have xs: "xs = []" by simp
    from ring_nexts_root[OF ring] xs have l: "nexts s ?rt = a" by simp
    from nb xs have n: "prevs s a = ?rt" by simp
    show ?thesis
      unfolding r_def popitem_def
      apply (simp add: ne False Let_def)
      apply (simp only: cells_fields l set_PREV_fields set_NEXT_fields)
      apply (simp only: dict_delitem_present[OF mc] sum.case Let_def)
      apply (simp only: set_map_fields set_PREV_fields set_NEXT_fields fun_upd_same odict.simps)
      apply (simp add: dict_pop_present[OF e] n)
      done
  qed
  show "fst r = Inr (key_of s a, entry_of s self (key_of s a))" by (simp add: eq)
  show "nexts (snd r) = (nexts s)(prevs s a := nexts s a)"
    by (simp add: eq set_PREV_fields set_NEXT_fields set_map_fields set_dict_fields)
  show "prevs (snd r) = (prevs s)(nexts s a := prevs s a)"
    by (simp add: eq set_PREV_fields set_NEXT_fields set_map_fields set_dict_fields)
  show "key_of (snd r) = key_of s"
    by (simp add: eq set_PREV_fields set_NEXT_fields set_map_fields set_dict_fields)
  show "fresh (snd r) = fresh s"
    by (simp add: eq set_PREV_fields set_NEXT_fields set_map_fields set_dict_fields)
  show "objs (snd r) = (objs s)(self := (objs s self)
               \<lparr>od_dict := AList.delete (key_of s a) (od_dict (objs s self)),
                 od_map := AList.delete (key_of s a) (od_map (objs s self))\<rparr>)"
    by (simp add: eq set_PREV_fields set_NEXT_fields set_map_fields set_dict_fields odict_upd_swap)
qed

lemma od_inv_nonempty:
  assumes "od_inv self s as" "od_dict (objs s self) \<noteq> []"
  shows "as \<noteq> []"
proof
  assume "as = []"
  with assms(1) have "set (map fst (od_dict (objs s self))) = {}"
    by (simp add: od_inv_def keys_at_def)
  with assms(2) show False by simp
qed

lemma od_inv_after_unlink:
  assumes inv: "od_inv self s (xs @ a # ys)"
    and nx: "nexts s' = (nexts s)(prevs s a := nexts s a)"
    and pv: "prevs s' = (prevs s)(nexts s a := prevs s a)"
    and ky: "key_of s' = key_of s"
    and fr: "fresh s' = fresh s"
    and ob: "objs s' = (objs s)(self := (objs s self)
               \<lparr>od_dict := AList.delete (key_of s a) (od_dict (objs s self)),
                 od_map := AList.delete (key_of s a) (od_map (objs s self))\<rparr>)"
  shows "od_inv self s' (xs @ ys)"
    and "keys self s' = Some (keys_at s xs @ keys_at s ys)"
    and "\<not> contains self (key_of s a) s'"
    and "\<not> dict_contains (od_map (objs s' self)) (key_of s a)"
proof -
  note u = od_inv_unlink[OF inv nx pv ky fr ob]
  show "od_inv self s' (xs @ ys)" by (rule u(1))
  from od_inv_keys[OF u(1)] u(2) show "keys self s' = Some (keys_at s xs @ keys_at s ys)"
    by simp
  from u(3) show "\<not> contains self (key_of s a) s'"
    unfolding contains_def od_inv_contains[OF u(1)] u(2) .
  show "\<not> dict_contains (od_map (objs s' self)) (key_of s a)"
    by (simp add: ob dict_contains_iff delete_notin_dom)
qed

subsection \<open>popitem and pop\<close>

text \<open>
  C5. On a well-formed, non-empty instance \<open>popitem(last=True)\<close> returns the last key of
  the list with its value and \<open>popitem(last=False)\<close> the first key with its value; the
  key is gone afterwards, and the other keys keep their order: \<open>keys()\<close> is then the
  old list without its last, respectively without its first, element.
\<close>

theorem C5_popitem_ends:
  assumes "od_inv self s as" and "od_dict (objs s self) \<noteq> []"
  shows "fst (popitem self True s)
           = Inr (last (keys_at s as), entry_of s self (last (keys_at s as)))
       \<and> keys self (snd (popitem self True s)) = Some (butlast (keys_at s as))
       \<and> \<not> contains self (last (keys_at s as)) (snd (popitem self True s))
       \<and> od_inv self (snd (popitem self True s)) (butlast as)
       \<and> fst (popitem self False s)
           = Inr (hd (keys_at s as), entry_of s self (hd (keys_at s as)))
       \<and> keys self (snd (popitem self False s)) = Some (tl (keys_at s as))
       \<and> \<not> contains self (hd (keys_at s as)) (snd (popitem self False s))
       \<and> od_inv self (snd (popitem self False s)) (tl as)"
proof -
  from od_inv_nonempty[OF assms] have ne: "as \<noteq> []" .
  then have l: "as = butlast as @ last as # []" and h: "as = [] @ hd as # tl as" by simp_all
  have kl: "key_of s (last as) = last (keys_at s as)"
    and kh: "key_of s (hd as) = hd (keys_at s as)"
    and kb: "keys_at s (butlast as) = butlast (keys_at s as)"
    and kt: "keys_at s (tl as) = tl (keys_at s as)"
    using ne by (simp_all add: keys_at_def last_map hd_map map_butlast map_tl)
  from assms(1) l have invl: "od_inv self s (butlast as @ last as # [])" by simp
  from assms(1) h have invh: "od_inv self s ([] @ hd as # tl as)" by simp
  note pl = popitem_nonempty[OF invl, of True, simplified]
  note ph = popitem_nonempty[OF invh, of False, simplified]
  note ul = od_inv_after_unlink[OF invl pl(2-6)]
  note uh = od_inv_after_unlink[OF invh ph(2-6)]
  from pl(1) ph(1) ul uh show ?thesis
    unfolding kl kh kb kt by (simp add: keys_at_def)
qed

text \<open>
  C6, as the code has it. On an instance without entries \<open>popitem\<close> raises, for either
  value of \<open>last\<close>, \<open>KeyError\<close> with the message \<open>dictionary is empty\<close>, and leaves
  the store as it is. \<open>KeyError\<close> is also what a missing key raises.
\<close>

theorem C6_popitem_empty:
  assumes "od_dict (objs s self) = []"
  shows "popitem self last' s = (Inl (KeyError (PyStr ''dictionary is empty'')), s)"
  using assms by (simp add: popitem_def)

lemma ex_empty_dict: "od_dict (objs ex_empty 0) = []"
  by (simp add: ex_empty_def store0_def OrderedDict_new_def Let_def)

theorem C6_popitem_empty_witness:
  "od_dict (objs ex_empty 0) = []
   \<and> popitem 0 True ex_empty = (Inl (KeyError (PyStr ''dictionary is empty'')), ex_empty)
   \<and> popitem 0 False ex_empty = (Inl (KeyError (PyStr ''dictionary is empty'')), ex_empty)"
  using C6_popitem_empty[OF ex_empty_dict, of True] C6_popitem_empty[OF ex_empty_dict, of False]
    ex_empty_dict by simp

text \<open>
  The error of \<open>popitem\<close> on an empty instance is not of a kind of its own: \<open>pop\<close> of
  the absent key \<open>'dictionary is empty'\<close>, without a default, raises the very same
  exception.
\<close>

theorem C6_same_error_kind_counterexample:
  "fst (popitem 0 True ex_empty) = Inl (KeyError (PyStr ''dictionary is empty''))
   \<and> fst (pop 0 (PyStr ''dictionary is empty'') None ex_empty)
       = Inl (KeyError (PyStr ''dictionary is empty''))"
  by (simp add: popitem_def pop_def contains_def dict_contains_def ex_empty_dict)

lemma pop_absent:
  "\<not> contains self k s \<Longrightarrow>
   pop self k d s = (case d of None \<Rightarrow> (Inl (KeyError k), s) | Some v \<Rightarrow> (Inr v, s))"
  by (simp add: pop_def)

lemma pop_present:
  assumes inv: "od_inv self s (xs @ a # ys)"
  shows "pop self (key_of s a) d s
           = (Inr (entry_of s self (key_of s a)), snd (delitem self (key_of s a) s))"
proof -
  let ?k = "key_of s a"
  have kin: "?k \<in> set (keys_at s (xs @ a # ys))" by (simp add: keys_at_def)
  with inv have c: "contains self ?k s" by (simp add: contains_def od_inv_contains)
  note g = getitem_entry[OF inv kin]
  from delitem_present(1)[OF inv] have "delitem self ?k s = (Inr (), snd (delitem self ?k s))"
    by (simp add: prod_eq_iff)
  then have "(case delitem self ?k s of
                (Inl e, s2) \<Rightarrow> (Inl e, s2)
              | (Inr u, s2) \<Rightarrow> (Inr (entry_of s self ?k), s2))
      = (Inr (entry_of s self ?k), snd (delitem self ?k s))"
    by (cases "delitem self ?k s") simp
  then show ?thesis by (simp add: pop_def c g)
qed

lemma filter_other_keys:
  assumes "distinct (map f (xs @ a # ys))"
  shows "filter (\<lambda>b. f b \<noteq> f a) (xs @ a # ys) = xs @ ys"
    and "removeAll (f a) (map f (xs @ a # ys)) = map f xs @ map f ys"
proof -
  from assms have na: "f a \<notin> f ` set xs" "f a \<notin> f ` set ys" by auto
  then have "\<forall>b \<in> set xs. f b \<noteq> f a" "\<forall>b \<in> set ys. f b \<noteq> f a"
    by (metis imageI)+
  then have "filter (\<lambda>b. f b \<noteq> f a) xs = xs" "filter (\<lambda>b. f b \<noteq> f a) ys = ys"
    by (simp_all add: filter_id_conv)
  then show "filter (\<lambda>b. f b \<noteq> f a) (xs @ a # ys) = xs @ ys" by simp
  from na show "removeAll (f a) (map f (xs @ a # ys)) = map f xs @ map f ys" by simp
qed

text \<open>
  C7. On a well-formed instance \<open>pop(key[, default])\<close> raises (\<open>KeyError(key)\<close>) exactly
  when the key is absent and no default is given; with an absent key and a default it
  returns the default and leaves the store as it is; with a key that is there it returns
  the stored value and removes the key: from the inherited dict, from \<open>__map\<close> and from
  the list, whose other keys keep their order.
\<close>

theorem C7_pop_key:
  assumes "od_inv self s as"
  shows "((\<exists>e. fst (pop self k d s) = Inl e) \<longleftrightarrow> (\<not> contains self k s \<and> d = None))
     \<and> (\<not> contains self k s \<and> d = None \<longrightarrow> pop self k d s = (Inl (KeyError k), s))
     \<and> (\<forall>v. \<not> contains self k s \<and> d = Some v \<longrightarrow> pop self k d s = (Inr v, s))
     \<and> (contains self k s \<longrightarrow>
          fst (pop self k d s) = Inr (entry_of s self k)
          \<and> \<not> contains self k (snd (pop self k d s))
          \<and> \<not> dict_contains (od_map (objs (snd (pop self k d s)) self)) k
          \<and> keys self (snd (pop self k d s)) = Some (removeAll k (keys_at s as))
          \<and> od_inv self (snd (pop self k d s)) (filter (\<lambda>a. key_of s a \<noteq> k) as))"
proof (cases "contains self k s")
  case False
  then show ?thesis by (cases d) (simp_all add: pop_absent)
next
  case True
  with assms have "k \<in> set (keys_at s as)" by (simp add: contains_def od_inv_contains)
  then obtain a where "a \<in> set as" and ka: "key_of s a = k" by (auto simp: keys_at_def)
  then obtain xs ys where as: "as = xs @ a # ys" by (auto simp: in_set_conv_decomp)
  from assms as have inv: "od_inv self s (xs @ a # ys)" by simp
  from inv have dk: "distinct (map (key_of s) (xs @ a # ys))"
    by (simp add: od_inv_def keys_at_def)
  note p = pop_present[OF inv, of d]
  note u = od_inv_after_unlink[OF inv delitem_present(2-6)[OF inv]]
  from True p u filter_other_keys[OF dk] show ?thesis
    unfolding as ka[symmetric] by (simp add: keys_at_def)
qed

lemma ex_abc_inv: "od_inv 0 ex_abc [2, 3, 4]"
  by (simp add: ex_abc_def run_defs inv_defs)

lemma ex_abc_keys: "keys_at ex_abc [2, 3, 4] = [PyStr ''a'', PyStr ''b'', PyStr ''c'']"
  by (simp add: ex_abc_def run_defs inv_defs)

lemma ex_abc_dict:
  "od_dict (objs ex_abc 0) = [(PyStr ''a'', 1), (PyStr ''b'', 2), (PyStr ''c'', 3)]"
  by (simp add: ex_abc_def run_defs)

theorem C5_popitem_ends_witness:
  "od_inv 0 ex_abc [2, 3, 4] \<and> od_dict (objs ex_abc 0) \<noteq> []
   \<and> keys 0 ex_abc = Some [PyStr ''a'', PyStr ''b'', PyStr ''c'']
   \<and> fst (popitem 0 True ex_abc) = Inr (PyStr ''c'', 3)
   \<and> keys 0 (snd (popitem 0 True ex_abc)) = Some [PyStr ''a'', PyStr ''b'']
   \<and> fst (popitem 0 False ex_abc) = Inr (PyStr ''a'', 1)
   \<and> keys 0 (snd (popitem 0 False ex_abc)) = Some [PyStr ''b'', PyStr ''c'']"
proof -
  have ne: "od_dict (objs ex_abc 0) \<noteq> []" by (simp add: ex_abc_dict)
  have e: "entry_of ex_abc 0 (PyStr ''a'') = 1" "entry_of ex_abc 0 (PyStr ''c'') = 3"
    by (simp_all add: entry_of_def ex_abc_dict)
  from C5_popitem_ends[OF ex_abc_inv ne] od_inv_keys[OF ex_abc_inv] ex_abc_inv ne e
  show ?thesis by (simp add: ex_abc_keys)
qed

theorem C7_pop_key_witness:
  "od_inv 0 ex_ab [2, 3]
   \<and> contains 0 (PyStr ''a'') ex_ab \<and> \<not> contains 0 (PyStr ''z'') ex_ab
   \<and> pop 0 (PyStr ''z'') None ex_ab = (Inl (KeyError (PyStr ''z'')), ex_ab)
   \<and> pop 0 (PyStr ''z'') (Some 9) ex_ab = (Inr 9, ex_ab)
   \<and> fst (pop 0 (PyStr ''a'') None ex_ab) = Inr 1
   \<and> \<not> contains 0 (PyStr ''a'') (snd (pop 0 (PyStr ''a'') None ex_ab))
   \<and> keys 0 (snd (pop 0 (PyStr ''a'') None ex_ab)) = Some [PyStr ''b'']"
proof -
  have c: "contains 0 (PyStr ''a'') ex_ab" "\<not> contains 0 (PyStr ''z'') ex_ab"
    by (simp_all add: contains_def ex_ab_dict dict_contains_def)
  have e: "entry_of ex_ab 0 (PyStr ''a'') = 1"
    by (simp add: entry_of_def ex_ab_dict)
  from C7_pop_key[OF ex_ab_inv, of "PyStr ''z''" None]
    C7_pop_key[OF ex_ab_inv, of "PyStr ''z''" "Some 9"]
    C7_pop_key[OF ex_ab_inv, of "PyStr ''a''" None] ex_ab_inv c e
  show ?thesis by (simp add: ex_ab_keys)
qed


lemma getitem_absent_factory:
  assumes "\<not> contains self k s" "od_class (objs s self) = DefaultOrderedDict (Some f)"
  shows "getitem self k s = (Inr (f ()), setitem self k (f ()) s)"
proof -
  from assms(1) have "dict_getitem (od_dict (objs s self)) k = Inl (KeyError k)"
    by (simp add: contains_def dict_contains_def dict_getitem_def)
  with assms(2) show ?thesis
    by (simp add: getitem_def dict_subscript_def missing_def Let_def)
qed

lemma getitem_absent_no_factory:
  assumes "\<not> contains self k s" "od_class (objs s self) = DefaultOrderedDict None"
  shows "getitem self k s = (Inl (KeyError k), s)"
proof -
  from assms(1) have "dict_getitem (od_dict (objs s self)) k = Inl (KeyError k)"
    by (simp add: contains_def dict_contains_def dict_getitem_def)
  with assms(2) show ?thesis
    by (simp add: getitem_def dict_subscript_def missing_def)
qed

subsection \<open>Reading a DefaultOrderedDict\<close>

text \<open>
  C3. On a well-formed \<open>DefaultOrderedDict\<close>: \<open>self[k]\<close> for a key that is there
  returns the stored value and leaves the store as it is; for an absent key and a
  factory \<open>f\<close> it returns \<open>f()\<close> and the store is the one after \<open>self[k] = f()\<close>, so
  that \<open>k\<close> is the new last key of \<open>keys()\<close> and a second read returns the stored
  value; for an absent key and no factory it raises \<open>KeyError(k)\<close> and leaves the store
  as it is.
\<close>

theorem C3_default_getitem:
  assumes "od_inv self s as" and "od_class (objs s self) = DefaultOrderedDict fac"
  shows "(contains self k s \<longrightarrow> getitem self k s = (Inr (entry_of s self k), s))
     \<and> (\<forall>f. \<not> contains self k s \<and> fac = Some f \<longrightarrow>
           getitem self k s = (Inr (f ()), setitem self k (f ()) s)
           \<and> keys self (setitem self k (f ()) s) = Some (keys_at s as @ [k])
           \<and> contains self k (setitem self k (f ()) s)
           \<and> getitem self k (setitem self k (f ()) s) = (Inr (f ()), setitem self k (f ()) s)
           \<and> od_inv self (setitem self k (f ()) s) (as @ [fresh s]))
     \<and> (\<not> contains self k s \<and> fac = None \<longrightarrow> getitem self k s = (Inl (KeyError k), s))"
proof (cases "contains self k s")
  case True
  with assms(1) have "k \<in> set (keys_at s as)" by (simp add: contains_def od_inv_contains)
  from getitem_entry[OF assms(1) this] True show ?thesis by simp
next
  case False
  show ?thesis
  proof (cases fac)
    case None
    with False assms(2) show ?thesis by (simp add: getitem_absent_no_factory)
  next
    case (Some f)
    let ?s' = "setitem self k (f ()) s"
    from False have new: "\<not> dict_contains (od_dict (objs s self)) k" by (simp add: contains_def)
    note step = od_inv_setitem_new[OF assms(1) new, of "f ()"]
    have "k \<in> set (keys_at ?s' (as @ [fresh s]))" unfolding step(2) by simp
    with step(1) have c: "contains self k ?s'" by (simp add: contains_def od_inv_contains)
    from False Some assms(2) getitem_absent_factory[of self k s f] od_inv_keys[OF step(1)] step c
      contains_setitem_getitem[of self k "f ()" s]
    show ?thesis by simp
  qed
qed

lemma ex_dod_inv: "od_inv 0 ex_dod [2]" "od_inv 0 ex_dod_none [2]"
  by (simp_all add: ex_dod_def ex_dod_none_def run_defs inv_defs)

lemma ex_dod_facts:
  "keys_at ex_dod [2] = [PyStr ''a'']"
  "od_dict (objs ex_dod 0) = [(PyStr ''a'', 1)]"
  "od_class (objs ex_dod 0) = DefaultOrderedDict (Some (\<lambda>u. 0))"
  "od_dict (objs ex_dod_none 0) = [(PyStr ''a'', 1)]"
  "od_class (objs ex_dod_none 0) = DefaultOrderedDict None"
  by (simp_all add: ex_dod_def ex_dod_none_def run_defs inv_defs)

theorem C3_default_getitem_witness:
  "od_inv 0 ex_dod [2] \<and> od_class (objs ex_dod 0) = DefaultOrderedDict (Some (\<lambda>u. 0))
   \<and> contains 0 (PyStr ''a'') ex_dod \<and> \<not> contains 0 (PyStr ''x'') ex_dod
   \<and> getitem 0 (PyStr ''a'') ex_dod = (Inr 1, ex_dod)
   \<and> getitem 0 (PyStr ''x'') ex_dod = (Inr 0, setitem 0 (PyStr ''x'') 0 ex_dod)
   \<and> keys 0 (setitem 0 (PyStr ''x'') 0 ex_dod) = Some [PyStr ''a'', PyStr ''x'']
   \<and> od_inv 0 ex_dod_none [2] \<and> od_class (objs ex_dod_none 0) = DefaultOrderedDict None
   \<and> \<not> contains 0 (PyStr ''z'') ex_dod_none
   \<and> getitem 0 (PyStr ''z'') ex_dod_none = (Inl (KeyError (PyStr ''z'')), ex_dod_none)"
proof -
  have c: "contains 0 (PyStr ''a'') ex_dod" "\<not> contains 0 (PyStr ''x'') ex_dod"
    "\<not> contains 0 (PyStr ''z'') ex_dod_none"
    by (simp_all add: contains_def ex_dod_facts dict_contains_def)
  have e: "entry_of ex_dod 0 (PyStr ''a'') = 1" by (simp add: entry_of_def ex_dod_facts)
  from C3_default_getitem[OF ex_dod_inv(1) ex_dod_facts(3), of "PyStr ''a''"]
    C3_default_getitem[OF ex_dod_inv(1) ex_dod_facts(3), of "PyStr ''x''"]
    C3_default_getitem[OF ex_dod_inv(2) ex_dod_facts(5), of "PyStr ''z''"]
    ex_dod_inv ex_dod_facts c e
  show ?thesis by simp
qed

lemma distinct_keys_length:
  assumes "distinct (map fst d)" "distinct (map fst e)" "set d = set e"
  shows "length d = length e"
proof -
  from assms(1,2) have "distinct d" "distinct e" by (simp_all add: distinct_map)
  then have "length d = card (set d)" "length e = card (set e)"
    by (simp_all add: distinct_card)
  with assms(3) show ?thesis by simp
qed

lemma dict_eq_same_bindings:
  assumes "distinct (map fst d)" "distinct (map fst e)" "set d = set e"
  shows "dict_eq d e"
proof -
  have "map_of e k = Some v" if "(k, v) \<in> set d" for k v
    using that assms(2,3) by simp
  with distinct_keys_length[OF assms] show ?thesis
    by (auto simp: dict_eq_def list_all_iff)
qed

lemma od_inv_dict_distinct: "od_inv self s as \<Longrightarrow> distinct (map fst (od_dict (objs s self)))"
  by (simp add: od_inv_def)

subsection \<open>Equality\<close>

lemma ex_two_inv: "od_inv 0 ex_two [2, 3]" "od_inv 4 ex_two [6, 7]"
  by (simp_all add: ex_two_def ex_ab_def run_defs inv_defs)

lemma ex_two_facts:
  "keys_at ex_two [2, 3] = [PyStr ''a'', PyStr ''b'']"
  "keys_at ex_two [6, 7] = [PyStr ''b'', PyStr ''a'']"
  "od_dict (objs ex_two 0) = [(PyStr ''a'', 1), (PyStr ''b'', 2)]"
  "od_dict (objs ex_two 4) = [(PyStr ''b'', 2), (PyStr ''a'', 1)]"
  by (simp_all add: ex_two_def ex_ab_def run_defs inv_defs)

subsection \<open>Frames\<close>

lemma od_inv_frame:
  assumes inv: "od_inv self s as"
    and ob: "objs s' self = objs s self"
    and ce: "\<forall>a \<in> set (od_root (objs s self) # as).
               nexts s' a = nexts s a \<and> prevs s' a = prevs s a \<and> key_of s' a = key_of s a"
    and fr: "fresh s \<le> fresh s'"
  shows "od_inv self s' as" and "keys_at s' as = keys_at s as"
proof -
  let ?rt = "od_root (objs s self)"
  show ks: "keys_at s' as = keys_at s as" using ce by (simp add: keys_at_def)
  have "path (nexts s') ?rt as ?rt = path (nexts s) ?rt as ?rt"
    using ce by (intro path_cong) auto
  moreover have "path (prevs s') ?rt (rev as) ?rt = path (prevs s) ?rt (rev as) ?rt"
    using ce by (intro path_cong) auto
  ultimately have "ring s' ?rt as = ring s ?rt as" by (simp add: ring_def)
  with inv fr show "od_inv self s' as"
    unfolding od_inv_def ks ob by auto
qed

lemma OrderedDict_new_fields:
  "fst (OrderedDict_new cls s) = fresh s"
  "fresh (snd (OrderedDict_new cls s)) = Suc (Suc (fresh s))"
  "o' \<noteq> fresh s \<Longrightarrow> objs (snd (OrderedDict_new cls s)) o' = objs s o'"
  "a \<noteq> Suc (fresh s) \<Longrightarrow> nexts (snd (OrderedDict_new cls s)) a = nexts s a"
  "a \<noteq> Suc (fresh s) \<Longrightarrow> prevs (snd (OrderedDict_new cls s)) a = prevs s a"
  "a \<noteq> Suc (fresh s) \<Longrightarrow> key_of (snd (OrderedDict_new cls s)) a = key_of s a"
  "od_class (objs (snd (OrderedDict_new cls s)) (fresh s)) = cls"
  "od_dict (objs (snd (OrderedDict_new cls s)) (fresh s)) = []"
  "od_root (objs (snd (OrderedDict_new cls s)) (fresh s)) = Suc (fresh s)"
  by (simp_all add: OrderedDict_new_def Let_def nexts_def prevs_def key_of_def)

lemma od_inv_alloc:
  assumes inv: "od_inv self s as"
  shows "od_inv self (snd (OrderedDict_new cls s)) as"
    and "keys_at (snd (OrderedDict_new cls s)) as = keys_at s as"
    and "objs (snd (OrderedDict_new cls s)) self = objs s self"
proof -
  from inv have lt: "self < fresh s" "\<forall>a \<in> set (od_root (objs s self) # as). a < fresh s"
    by (simp_all add: od_inv_def)
  then have ob: "objs (snd (OrderedDict_new cls s)) self = objs s self"
    by (simp add: OrderedDict_new_fields)
  from lt have ce: "\<forall>a \<in> set (od_root (objs s self) # as).
      nexts (snd (OrderedDict_new cls s)) a = nexts s a
      \<and> prevs (snd (OrderedDict_new cls s)) a = prevs s a
      \<and> key_of (snd (OrderedDict_new cls s)) a = key_of s a"
    by (auto simp: OrderedDict_new_fields)
  have fr: "fresh s \<le> fresh (snd (OrderedDict_new cls s))" by (simp add: OrderedDict_new_fields)
  from od_inv_frame[OF inv ob ce fr] ob
  show "od_inv self (snd (OrderedDict_new cls s)) as"
    and "keys_at (snd (OrderedDict_new cls s)) as = keys_at s as"
    and "objs (snd (OrderedDict_new cls s)) self = objs s self"
    by simp_all
qed

subsection \<open>A run of assignments on a new instance\<close>






subsection \<open>Assignments to another instance\<close>

lemma setitem_frame:
  assumes inv: "od_inv c t bs"
  shows "o' \<noteq> c \<Longrightarrow> objs (setitem c k v t) o' = objs t o'"
    and "x \<notin> set (od_root (objs t c) # bs) \<Longrightarrow> x \<noteq> fresh t \<Longrightarrow>
           nexts (setitem c k v t) x = nexts t x \<and> prevs (setitem c k v t) x = prevs t x
           \<and> key_of (setitem c k v t) x = key_of t x"
    and "fresh t \<le> fresh (setitem c k v t)"
    and "od_root (objs (setitem c k v t) c) = od_root (objs t c)"
    and "\<exists>bs'. od_inv c (setitem c k v t) bs' \<and> set bs' \<subseteq> insert (fresh t) (set bs)"
proof -
  let ?rt = "od_root (objs t c)"
  from inv have r: "ring t ?rt bs" by (simp add: od_inv_def)
  from ring_prevs_root[OF r] have l: "prevs t ?rt \<in> set (?rt # bs)"
    by (cases bs rule: rev_cases) simp_all
  show "o' \<noteq> c \<Longrightarrow> objs (setitem c k v t) o' = objs t o'"
    by (cases "dict_contains (od_dict (objs t c)) k")
      (simp_all add: setitem_old_fields setitem_new_fields)
  show "x \<notin> set (?rt # bs) \<Longrightarrow> x \<noteq> fresh t \<Longrightarrow>
           nexts (setitem c k v t) x = nexts t x \<and> prevs (setitem c k v t) x = prevs t x
           \<and> key_of (setitem c k v t) x = key_of t x"
    using l by (cases "dict_contains (od_dict (objs t c)) k")
      (auto simp: setitem_old_fields setitem_new_fields)
  show "fresh t \<le> fresh (setitem c k v t)"
    by (cases "dict_contains (od_dict (objs t c)) k")
      (simp_all add: setitem_old_fields setitem_new_fields)
  show "od_root (objs (setitem c k v t) c) = ?rt"
    by (cases "dict_contains (od_dict (objs t c)) k")
      (simp_all add: setitem_old_fields setitem_new_fields)
  show "\<exists>bs'. od_inv c (setitem c k v t) bs' \<and> set bs' \<subseteq> insert (fresh t) (set bs)"
  proof (cases "dict_contains (od_dict (objs t c)) k")
    case True
    from od_inv_setitem_old(1)[OF inv True, of v] show ?thesis by auto
  next
    case False
    from od_inv_setitem_new(1)[OF inv False, of v]
    have "od_inv c (setitem c k v t) (bs @ [fresh t])
        \<and> set (bs @ [fresh t]) \<subseteq> insert (fresh t) (set bs)" by auto
    then show ?thesis by blast
  qed
qed

lemma apart_setitem:
  assumes ap: "apart lim self as c t"
  shows "apart lim self as c (setitem c k v t)"
    and "objs (setitem c k v t) self = objs t self"
    and "keys_at (setitem c k v t) as = keys_at t as"
proof -
  let ?t' = "setitem c k v t"
  from ap obtain bs where inv: "od_inv self t as" and lt: "self < lim"
    and below: "\<forall>a \<in> set (od_root (objs t self) # as). a < lim"
    and c: "lim \<le> c" and fr: "lim \<le> fresh t"
    and invc: "od_inv c t bs" and above: "\<forall>b \<in> set (od_root (objs t c) # bs). lim \<le> b"
    unfolding apart_def by blast
  note f = setitem_frame[OF invc, where k = k and v = v]
  from lt c have ne: "self \<noteq> c" by simp
  from f(1)[OF ne] show ob: "objs ?t' self = objs t self" .
  have ce: "\<forall>a \<in> set (od_root (objs t self) # as).
      nexts ?t' a = nexts t a \<and> prevs ?t' a = prevs t a \<and> key_of ?t' a = key_of t a"
  proof
    fix a assume a: "a \<in> set (od_root (objs t self) # as)"
    with below have "a < lim" by blast
    with above fr have "a \<notin> set (od_root (objs t c) # bs)" "a \<noteq> fresh t" by auto
    then show "nexts ?t' a = nexts t a \<and> prevs ?t' a = prevs t a \<and> key_of ?t' a = key_of t a"
      by (rule f(2))
  qed
  note fr' = od_inv_frame[OF inv ob ce f(3)]
  show "keys_at ?t' as = keys_at t as" by (rule fr'(2))
  from f(5) obtain bs' where bs': "od_inv c ?t' bs'" "set bs' \<subseteq> insert (fresh t) (set bs)"
    by blast
  have "\<forall>b \<in> set (od_root (objs ?t' c) # bs'). lim \<le> b"
    using above bs'(2) fr unfolding f(4) by auto
  with bs'(1) have "\<exists>bs. od_inv c ?t' bs \<and> (\<forall>b \<in> set (od_root (objs ?t' c) # bs). lim \<le> b)"
    by blast
  with fr'(1) lt below c fr f(3) show "apart lim self as c ?t'"
    unfolding apart_def ob by auto
qed

lemma getitem_fst_cong:
  "objs t self = objs t' self \<Longrightarrow> fst (getitem self k t) = fst (getitem self k t')"
  by (auto simp: getitem_def dict_subscript_def missing_def Let_def
      split: pyclass.split sum.split option.split error.split)

subsection \<open>Copying\<close>

lemma entry_of_cong: "objs t self = objs s self \<Longrightarrow> entry_of t self k = entry_of s self k"
  by (simp add: entry_of_def)

lemma fold_keys_copy:
  assumes I: "apart lim self as c t" "objs t self = objs s self" "keys_at t as = ks"
    and sub: "set ks' \<subseteq> set ks"
  shows "fold_keys (\<lambda>key acc s. case getitem self key s of
                            (Inl e, s') \<Rightarrow> (Inl e, s')
                          | (Inr v, s') \<Rightarrow> (Inr (), setitem c key v s')) ks' () t
           = (Inr (), set_all (map (\<lambda>k. (k, entry_of s self k)) ks') c t)"
  using I sub
proof (induction ks' arbitrary: t)
  case Nil
  then show ?case by simp
next
  case (Cons k ks')
  from Cons.prems(1) have inv: "od_inv self t as" by (simp add: apart_def)
  from Cons.prems(3,4) have kin: "k \<in> set (keys_at t as)" by simp
  from getitem_entry[OF inv kin] entry_of_cong[OF Cons.prems(2)]
  have g: "getitem self k t = (Inr (entry_of s self k), t)" by simp
  let ?t' = "setitem c k (entry_of s self k) t"
  note st = apart_setitem[OF Cons.prems(1), of k "entry_of s self k"]
  have "fold_keys (\<lambda>key acc s. case getitem self key s of
                            (Inl e, s') \<Rightarrow> (Inl e, s')
                          | (Inr v, s') \<Rightarrow> (Inr (), setitem c key v s')) ks' () ?t'
           = (Inr (), set_all (map (\<lambda>k. (k, entry_of s self k)) ks') c ?t')"
  proof (rule Cons.IH[OF st(1)])
    show "objs ?t' self = objs s self" using st(2) Cons.prems(2) by simp
    show "keys_at ?t' as = ks" using st(3) Cons.prems(3) by simp
    show "set ks' \<subseteq> set ks" using Cons.prems(4) by simp
  qed
  then show ?case by (simp add: g)
qed


lemma update_Instance:
  fixes s :: "('k, 'v) store" and cls :: "'v pyclass"
  assumes inv: "od_inv self s as"
  defines "c \<equiv> fresh s" and "s1 \<equiv> snd (OrderedDict_new cls s)"
    and "kvs \<equiv> map (\<lambda>k. (k, entry_of s self k)) (keys_at s as)"
  shows "update c (Instance self) s1 = Some (Inr (), set_all kvs c s1)"
    and "apart (fresh s) self as c s1"
    and "objs s1 self = objs s self"
    and "keys_at s1 as = keys_at s as"
proof -
  let ?body = "\<lambda>key acc s. case getitem self key s of
                            (Inl e, s') \<Rightarrow> (Inl e, s')
                          | (Inr v, s') \<Rightarrow> (Inr (), setitem c key v s')"
  let ?I = "\<lambda>t. apart (fresh s) self as c t \<and> objs t self = objs s self
                 \<and> keys_at t as = keys_at s as"
  note al = od_inv_alloc[OF inv, of cls, folded s1_def]
  show ob1: "objs s1 self = objs s self" by (rule al(3))
  show ks1: "keys_at s1 as = keys_at s as" by (rule al(2))
  have new: "OrderedDict_new cls s = (c, s1)"
    unfolding c_def s1_def by (simp add: prod_eq_iff OrderedDict_new_fields)
  from od_inv_new[OF new] have invc: "od_inv c s1 []" .
  have rc: "od_root (objs s1 c) = Suc (fresh s)"
    unfolding c_def s1_def by (simp add: OrderedDict_new_fields)
  from inv have lt: "self < fresh s" "\<forall>a \<in> set (od_root (objs s self) # as). a < fresh s"
    by (simp_all add: od_inv_def)
  have fr1: "fresh s \<le> fresh s1" unfolding s1_def by (simp add: OrderedDict_new_fields)
  have "\<exists>bs. od_inv c s1 bs \<and> (\<forall>b \<in> set (od_root (objs s1 c) # bs). fresh s \<le> b)"
    using invc rc by (intro exI[of _ "[]"]) simp
  with al(1) lt fr1 show ap1: "apart (fresh s) self as c s1"
    unfolding apart_def ob1 c_def by simp
  have "for_in self ?body () s1 = Some (fold_keys ?body (keys_at s as) () s1)"
  proof (rule for_in_fold[where I = ?I and as = as])
    fix t assume "?I t"
    then show "ring t (od_root (objs s1 self)) as \<and> keys_at t as = keys_at s as"
      unfolding ob1 by (auto simp: apart_def od_inv_def)
  next
    fix k acc t acc' t'
    assume I: "?I t" and k: "k \<in> set (keys_at s as)" and b: "?body k acc t = (Inr acc', t')"
    from I have invt: "od_inv self t as" by (simp add: apart_def)
    from I k have kin: "k \<in> set (keys_at t as)" by simp
    from getitem_entry[OF invt kin] b have t': "t' = setitem c k (entry_of t self k) t" by simp
    from I apart_setitem[of "fresh s" self as c t k "entry_of t self k"]
    show "?I t'" unfolding t' by simp
  next
    from ap1 ob1 ks1 show "?I s1" by simp
  qed
  also have "fold_keys ?body (keys_at s as) () s1 = (Inr (), set_all kvs c s1)"
    unfolding kvs_def by (rule fold_keys_copy[OF ap1 ob1 ks1]) simp
  finally show "update c (Instance self) s1 = Some (Inr (), set_all kvs c s1)"
    by (simp add: update_def)
qed

lemma copy_value:
  assumes inv: "od_inv self s as"
  shows "copy self s =
     Some (Inr (fresh s),
           set_all (map (\<lambda>k. (k, entry_of s self k)) (keys_at s as)) (fresh s)
             (snd (OrderedDict_new (od_class (objs s self)) s)))"
proof -
  have "copy self s = OrderedDict_init (od_class (objs s self)) (Instance self) s"
    by (simp add: copy_def split: pyclass.split)
  also have "\<dots> = Some (Inr (fresh s),
           set_all (map (\<lambda>k. (k, entry_of s self k)) (keys_at s as)) (fresh s)
             (snd (OrderedDict_new (od_class (objs s self)) s)))"
    using update_Instance(1)[OF inv, of "od_class (objs s self)"]
    by (simp add: OrderedDict_init_def split_beta OrderedDict_new_fields)
  finally show ?thesis .
qed

lemma distinct_keys_distinct: "distinct (map fst d) \<Longrightarrow> distinct d"
  by (simp add: distinct_map)

lemma dict_eq_iff:
  assumes "distinct (map fst d)" "distinct (map fst e)"
  shows "dict_eq d e \<longleftrightarrow> set d = set e"
proof
  assume "set d = set e"
  with assms show "dict_eq d e" by (rule dict_eq_same_bindings)
next
  assume eq: "dict_eq d e"
  then have len: "length d = length e"
    and all: "\<forall>(k, v) \<in> set d. map_of e k = Some v"
    by (auto simp: dict_eq_def list_all_iff)
  have sub: "set d \<subseteq> set e"
  proof
    fix p assume "p \<in> set d"
    with all have "map_of e (fst p) = Some (snd p)" by (cases p) auto
    then have "(fst p, snd p) \<in> set e" by (rule map_of_SomeD)
    then show "p \<in> set e" by simp
  qed
  from assms have "distinct d" "distinct e" by (simp_all add: distinct_keys_distinct)
  then have "card (set d) = length d" "card (set e) = length e"
    by (simp_all add: distinct_card)
  with len have "card (set d) = card (set e)" by simp
  with sub show "set d = set e" by (simp add: card_subset_eq)
qed

lemma od_inv_dict_length:
  assumes "od_inv self s as"
  shows "length (od_dict (objs s self)) = length as"
proof -
  let ?d = "od_dict (objs s self)"
  from assms have "distinct (map fst ?d)" "distinct (keys_at s as)"
    "set (map fst ?d) = set (keys_at s as)"
    by (simp_all add: od_inv_def)
  then have "length (map fst ?d) = length (keys_at s as)"
    by (metis distinct_card)
  then show ?thesis by (simp add: keys_at_def)
qed

lemma items_eq_iff:
  "map (\<lambda>k. (k, f k)) ks = map (\<lambda>k. (k, g k)) ks'
     \<longleftrightarrow> ks = ks' \<and> (\<forall>k \<in> set ks. f k = g k)"
proof
  assume e: "map (\<lambda>k. (k, f k)) ks = map (\<lambda>k. (k, g k)) ks'"
  then have "map fst (map (\<lambda>k. (k, f k)) ks) = map fst (map (\<lambda>k. (k, g k)) ks')" by simp
  then have k: "ks = ks'" by (simp add: comp_def)
  from e have "map snd (map (\<lambda>k. (k, f k)) ks) = map snd (map (\<lambda>k. (k, g k)) ks')" by simp
  with k have "map f ks = map g ks" by (simp add: comp_def)
  with k show "ks = ks' \<and> (\<forall>k \<in> set ks. f k = g k)" by simp
next
  assume "ks = ks' \<and> (\<forall>k \<in> set ks. f k = g k)"
  then show "map (\<lambda>k. (k, f k)) ks = map (\<lambda>k. (k, g k)) ks'" by auto
qed

lemma eq_instance:
  assumes a: "od_inv a s as" and b: "od_inv b s bs"
  shows "eq a (AnInstance b) s
           = Some (Inr (keys_at s as = keys_at s bs
                        \<and> (\<forall>k \<in> set (keys_at s as). entry_of s a k = entry_of s b k)), s)"
proof (cases "length (od_dict (objs s a)) = length (od_dict (objs s b))")
  case True
  then show ?thesis
    by (simp add: eq_def od_inv_items[OF a] od_inv_items[OF b] items_eq_iff)
next
  case False
  then have "length as \<noteq> length bs"
    by (simp add: od_inv_dict_length[OF a] od_inv_dict_length[OF b])
  then have "keys_at s as \<noteq> keys_at s bs"
    by (auto simp: keys_at_def dest: map_eq_imp_length_eq)
  with False show ?thesis by (simp add: eq_def)
qed

lemma eq_plain:
  assumes a: "od_inv a s as" and d: "distinct (map fst d)"
  shows "eq a (APlainDict d) s = Some (Inr (set d = set (od_dict (objs s a))), s)"
proof -
  from a have "distinct (map fst (od_dict (objs s a)))" by (simp add: od_inv_def)
  from dict_eq_iff[OF this d] show ?thesis by (auto simp: eq_def)
qed

subsection \<open>Equality\<close>

text \<open>
  C4. For well-formed instances \<open>a\<close> and \<open>b\<close>, \<open>a == b\<close> returns whether they have
  the same keys in the same order with the same values; in particular an instance is
  equal to itself. Against a plain dict, \<open>a == d\<close> returns whether \<open>d\<close> has exactly the
  bindings of \<open>a\<close>, in whatever order. Hence two instances with the same bindings whose
  keys are in different orders are unequal, in either direction, while each of them is
  equal to every plain dict with these bindings.
\<close>

theorem C4_equality_asymmetry:
  assumes "od_inv a s as" and "od_inv b s bs"
  shows "eq a (AnInstance b) s
           = Some (Inr (keys_at s as = keys_at s bs
                        \<and> (\<forall>k \<in> set (keys_at s as). entry_of s a k = entry_of s b k)), s)
     \<and> eq a (AnInstance a) s = Some (Inr True, s)
     \<and> (\<forall>d. distinct (map fst d) \<longrightarrow>
           eq a (APlainDict d) s = Some (Inr (set d = set (od_dict (objs s a))), s))
     \<and> (set (od_dict (objs s a)) = set (od_dict (objs s b))
          \<and> keys_at s as \<noteq> keys_at s bs \<longrightarrow>
           eq a (AnInstance b) s = Some (Inr False, s)
           \<and> eq b (AnInstance a) s = Some (Inr False, s)
           \<and> (\<forall>d. distinct (map fst d) \<and> set d = set (od_dict (objs s a)) \<longrightarrow>
                eq a (APlainDict d) s = Some (Inr True, s)
                \<and> eq b (APlainDict d) s = Some (Inr True, s)))"
proof -
  note ab = eq_instance[OF assms(1) assms(2)] and ba = eq_instance[OF assms(2) assms(1)]
    and aa = eq_instance[OF assms(1) assms(1)]
  note pa = eq_plain[OF assms(1)] and pb = eq_plain[OF assms(2)]
  have 1: "eq a (AnInstance a) s = Some (Inr True, s)" using aa by simp
  have 2: "\<forall>d. distinct (map fst d) \<longrightarrow>
           eq a (APlainDict d) s = Some (Inr (set d = set (od_dict (objs s a))), s)"
    using pa by blast
  have 3: "eq a (AnInstance b) s = Some (Inr False, s)
           \<and> eq b (AnInstance a) s = Some (Inr False, s)
           \<and> (\<forall>d. distinct (map fst d) \<and> set d = set (od_dict (objs s a)) \<longrightarrow>
                eq a (APlainDict d) s = Some (Inr True, s)
                \<and> eq b (APlainDict d) s = Some (Inr True, s))"
    if same: "set (od_dict (objs s a)) = set (od_dict (objs s b))"
      and order: "keys_at s as \<noteq> keys_at s bs"
  proof -
    from order have "keys_at s bs \<noteq> keys_at s as" by simp
    with ab ba order have "eq a (AnInstance b) s = Some (Inr False, s)"
      "eq b (AnInstance a) s = Some (Inr False, s)" by simp_all
    moreover have "eq a (APlainDict d) s = Some (Inr True, s)
        \<and> eq b (APlainDict d) s = Some (Inr True, s)"
      if "distinct (map fst d)" "set d = set (od_dict (objs s a))" for d
      using pa[OF that(1)] pb[OF that(1)] that(2) same by simp
    ultimately show ?thesis by blast
  qed
  from ab 1 2 3 show ?thesis by blast
qed

theorem C4_equality_asymmetry_witness:
  "od_inv 0 ex_two [2, 3] \<and> od_inv 4 ex_two [6, 7]
   \<and> set (od_dict (objs ex_two 0)) = set (od_dict (objs ex_two 4))
   \<and> keys_at ex_two [2, 3] \<noteq> keys_at ex_two [6, 7]
   \<and> eq 0 (AnInstance 4) ex_two = Some (Inr False, ex_two)
   \<and> eq 4 (AnInstance 0) ex_two = Some (Inr False, ex_two)
   \<and> eq 0 (AnInstance 0) ex_two = Some (Inr True, ex_two)
   \<and> eq 0 (APlainDict [(PyStr ''b'', 2), (PyStr ''a'', 1)]) ex_two = Some (Inr True, ex_two)
   \<and> eq 4 (APlainDict [(PyStr ''a'', 1), (PyStr ''b'', 2)]) ex_two = Some (Inr True, ex_two)
   \<and> eq 0 (APlainDict [(PyStr ''a'', 1), (PyStr ''b'', 3)]) ex_two = Some (Inr False, ex_two)
   \<and> eq 0 (APlainDict [(PyStr ''a'', 1)]) ex_two = Some (Inr False, ex_two)"
proof -
  have b: "set (od_dict (objs ex_two 0)) = set (od_dict (objs ex_two 4))"
    by (auto simp: ex_two_facts)
  have o: "keys_at ex_two [2, 3] \<noteq> keys_at ex_two [6, 7]"
    by (simp add: ex_two_facts)
  note t = C4_equality_asymmetry[OF ex_two_inv]
  note t2 = t[THEN conjunct2, THEN conjunct1]
  note t3 = t[THEN conjunct2, THEN conjunct2, THEN conjunct1, rule_format]
  note t4 = t[THEN conjunct2, THEN conjunct2, THEN conjunct2, rule_format, OF conjI, OF b o]
  note t5 = t4[THEN conjunct2, THEN conjunct2, rule_format, OF conjI]
  have d1: "distinct (map fst [(PyStr ''b'', 2::nat), (PyStr ''a'', 1)])"
    and d2: "distinct (map fst [(PyStr ''a'', 1::nat), (PyStr ''b'', 2)])"
    and d3: "distinct (map fst [(PyStr ''a'', 1::nat), (PyStr ''b'', 3)])"
    and d4: "distinct (map fst [(PyStr ''a'', 1::nat)])"
    by simp_all
  have s1: "set [(PyStr ''b'', 2), (PyStr ''a'', 1)] = set (od_dict (objs ex_two 0))"
    and s2: "set [(PyStr ''a'', 1), (PyStr ''b'', 2)] = set (od_dict (objs ex_two 0))"
    by (auto simp: ex_two_facts)
  have n3: "set [(PyStr ''a'', 1), (PyStr ''b'', 3)] \<noteq> set (od_dict (objs ex_two 0))"
  proof
    assume e: "set [(PyStr ''a'', 1), (PyStr ''b'', 3)] = set (od_dict (objs ex_two 0))"
    have "(PyStr ''b'', 3::nat) \<in> set [(PyStr ''a'', 1), (PyStr ''b'', 3)]" by simp
    also note e
    finally show False by (simp add: ex_two_facts)
  qed
  have n4: "set [(PyStr ''a'', 1)] \<noteq> set (od_dict (objs ex_two 0))"
  proof
    assume e: "set [(PyStr ''a'', 1)] = set (od_dict (objs ex_two 0))"
    have "(PyStr ''b'', 2::nat) \<in> set (od_dict (objs ex_two 0))" by (simp add: ex_two_facts)
    also note e[symmetric]
    finally show False by simp
  qed
  from t3[OF d3] n3 t3[OF d4] n4
  have f: "eq 0 (APlainDict [(PyStr ''a'', 1), (PyStr ''b'', 3)]) ex_two = Some (Inr False, ex_two)"
    "eq 0 (APlainDict [(PyStr ''a'', 1)]) ex_two = Some (Inr False, ex_two)"
    by simp_all
  from ex_two_inv b o t4[THEN conjunct1] t4[THEN conjunct2, THEN conjunct1] t2
    t5[OF d1 s1, THEN conjunct1] t5[OF d2 s2, THEN conjunct2] f
  show ?thesis by (intro conjI)
qed



subsection \<open>Building an instance beside another one\<close>



subsection \<open>Serialization\<close>




end
